theory Spec2Isabelle
  imports Main "HOL-Library.Multiset"
begin

section \<open>Alien invasion: the simulation engine of game2.py\<close>

text \<open>
  The program keeps its aliens as Python objects that are shared between the board grid,
  the child lists of their parents and the driver's root registry. The model therefore has
  an explicit object store: a reference is a natural number, \<open>heap\<close> maps a reference to
  the object's fields and \<open>next_ref\<close> is the next unused reference. The \<open>value\<close> byte
  array of an alien (memory ballast) carries no behaviour and is left out; the back
  reference \<open>Alien.board\<close> always names the one board, which the model passes around as
  the \<open>world\<close>.
\<close>

subsection \<open>Python values: exceptions and list indexing\<close>

datatype error = IndexError | AttributeError

definition and_then :: "error + 'a \<Rightarrow> ('a \<Rightarrow> error + 'b) \<Rightarrow> error + 'b" where
  "and_then m f = (case m of Inl e \<Rightarrow> Inl e | Inr v \<Rightarrow> f v)"

text \<open>\<open>xs[i]\<close>: an index below zero counts from the end; outside the list it raises.\<close>

definition py_slot :: "'a list \<Rightarrow> int \<Rightarrow> nat option" where
  "py_slot xs i =
     (if 0 \<le> i \<and> i < int (length xs) then Some (nat i)
      else if i < 0 \<and> - int (length xs) \<le> i then Some (nat (int (length xs) + i))
      else None)"

definition py_get :: "'a list \<Rightarrow> int \<Rightarrow> error + 'a" where
  "py_get xs i = (case py_slot xs i of None \<Rightarrow> Inl IndexError | Some k \<Rightarrow> Inr (xs ! k))"

definition py_set :: "'a list \<Rightarrow> int \<Rightarrow> 'a \<Rightarrow> error + 'a list" where
  "py_set xs i v = (case py_slot xs i of None \<Rightarrow> Inl IndexError | Some k \<Rightarrow> Inr (xs[k := v]))"

subsection \<open>Constants\<close>

definition HEIGHT :: int where "HEIGHT = 8"
definition WIDTH :: int where "WIDTH = 8"
definition STRENGTH :: int where "STRENGTH = 9"

subsection \<open>Objects\<close>

text \<open>
  The fields \<open>x\<close> and \<open>y\<close> of an alien are named \<open>xpos\<close> and \<open>ypos\<close>; the player's
  \<open>strength\<close> is \<open>pstrength\<close>. A child slot is \<open>None\<close> once the collector has nulled it.
\<close>

record alien =
  coords :: "int \<times> int"
  strength :: int
  xpos :: int
  ypos :: int
  squished :: bool
  children :: "nat option list"

record player =
  score :: int
  pstrength :: int
  turn :: int
  consecutive_hits :: int

record world =
  heap :: "nat \<Rightarrow> alien"
  next_ref :: nat
  board :: "nat option list list"
  height :: int
  width :: int
  the_player :: "player option"

definition new_alien :: alien where
  "new_alien = \<lparr>coords = (0, 0), strength = 0, xpos = 0, ypos = 0, squished = False, children = []\<rparr>"

definition Board_init :: "int \<Rightarrow> int \<Rightarrow> world" where
  "Board_init h w =
     \<lparr>heap = (\<lambda>_. new_alien), next_ref = 0,
      board = replicate (nat h) (replicate (nat w) None),
      height = h, width = w, the_player = None\<rparr>"

definition Player_init :: player where
  "Player_init = \<lparr>score = 0, pstrength = 1, turn = 0, consecutive_hits = 0\<rparr>"

subsection \<open>Board: cells\<close>

definition set_cell :: "world \<Rightarrow> int \<times> int \<Rightarrow> nat option \<Rightarrow> error + world" where
  "set_cell s c v =
     and_then (py_get (board s) (fst c)) (\<lambda>row.
     and_then (py_set row (snd c) v) (\<lambda>row'.
     and_then (py_set (board s) (fst c) row') (\<lambda>b'.
     Inr (s\<lparr>board := b'\<rparr>))))"

definition addAlien :: "world \<Rightarrow> nat \<Rightarrow> error + world" where
  "addAlien s a = set_cell s (coords (heap s a)) (Some a)"

definition clearCell :: "world \<Rightarrow> int \<times> int \<Rightarrow> error + world" where
  "clearCell s c = set_cell s c None"

definition getAlien :: "world \<Rightarrow> int \<times> int \<Rightarrow> error + nat option" where
  "getAlien s c = and_then (py_get (board s) (fst c)) (\<lambda>row. py_get row (snd c))"

definition isEmpty :: "world \<Rightarrow> int \<times> int \<Rightarrow> error + bool" where
  "isEmpty s c = and_then (getAlien s c) (\<lambda>v. Inr (v = None))"

definition moveAlien :: "world \<Rightarrow> int \<times> int \<Rightarrow> int \<times> int \<Rightarrow> error + world" where
  "moveAlien s oldCoords newCoords =
     and_then (isEmpty s oldCoords) (\<lambda>e_old.
     if e_old then Inr s
     else and_then (isEmpty s newCoords) (\<lambda>e_new.
     if \<not> e_new then Inr s
     else and_then (getAlien s oldCoords) (\<lambda>al.
          and_then (clearCell s oldCoords) (\<lambda>s1.
          and_then (set_cell s1 newCoords al) (\<lambda>s2.
          case al of
            None \<Rightarrow> Inl AttributeError
          | Some a \<Rightarrow>
              Inr (s2\<lparr>heap := (heap s2)(a := (heap s2 a)\<lparr>xpos := fst newCoords,
                                                          ypos := snd newCoords\<rparr>)\<rparr>))))))"

subsection \<open>Alien: construction, death, damage\<close>

text \<open>
  The constructor stores \<open>coords\<close> and \<open>strength\<close>, registers the object on the board and
  only then sets the remaining fields; when the registration raises, no object results.
\<close>

definition Alien_init :: "world \<Rightarrow> int \<times> int \<Rightarrow> int \<Rightarrow> error + (world \<times> nat)" where
  "Alien_init s c k =
     (let a = next_ref s;
          s1 = s\<lparr>heap := (heap s)(a := new_alien\<lparr>coords := c, strength := k\<rparr>),
                 next_ref := Suc a\<rparr>
      in and_then (addAlien s1 a) (\<lambda>s2.
         Inr (s2\<lparr>heap := (heap s2)(a := (heap s2 a)\<lparr>xpos := fst c, ypos := snd c,
                                                    squished := False, children := []\<rparr>)\<rparr>, a)))"

definition doDeath :: "world \<Rightarrow> nat \<Rightarrow> error + world" where
  "doDeath s a =
     (let s1 = s\<lparr>heap := (heap s)(a := (heap s a)\<lparr>squished := True\<rparr>)\<rparr>
      in clearCell s1 (coords (heap s1 a)))"

definition doPop :: "world \<Rightarrow> nat \<Rightarrow> int \<Rightarrow> error + world" where
  "doPop s a k =
     (let s1 = s\<lparr>heap := (heap s)(a := (heap s a)\<lparr>strength := strength (heap s a) - k\<rparr>)\<rparr>
      in if strength (heap s1 a) < 1 then doDeath s1 a else Inr s1)"

definition inRange :: "world \<Rightarrow> int \<times> int \<Rightarrow> bool" where
  "inRange s c \<longleftrightarrow> 0 \<le> fst c \<and> fst c < width s \<and> 0 \<le> snd c \<and> snd c < height s"

subsection \<open>The random source\<close>

text \<open>
  The generator is an input of the model: an endless stream of raw draws. \<open>randint lo hi\<close>
  consumes one draw and brings it into \<open>lo..hi\<close>, so every value of the range can come out
  and no other.
\<close>

type_synonym rng = "nat \<Rightarrow> int"

definition randint :: "int \<Rightarrow> int \<Rightarrow> rng \<Rightarrow> int \<times> rng" where
  "randint lo hi g = (lo + g 0 mod (hi - lo + 1), \<lambda>n. g (Suc n))"

subsection \<open>Alien: travel\<close>

definition doTravel :: "world \<Rightarrow> nat \<Rightarrow> rng \<Rightarrow> error + (world \<times> rng)" where
  "doTravel s a g =
     (let (distx, g1) = randint (- 1) 1 g;
          (disty, g2) = randint (- 1) 1 g1;
          newx = xpos (heap s a) + distx;
          newy = ypos (heap s a) + disty
      in if inRange s (newx, newy)
         then and_then (moveAlien s (coords (heap s a)) (newx, newy)) (\<lambda>s1.
              Inr (s1\<lparr>heap := (heap s1)(a := (heap s1 a)\<lparr>coords := (newx, newy)\<rparr>)\<rparr>, g2))
         else Inr (s, g2))"

subsection \<open>Player: the radius bomb\<close>

primrec for_each :: "'a list \<Rightarrow> ('a \<Rightarrow> 's \<Rightarrow> error + 's) \<Rightarrow> 's \<Rightarrow> error + 's" where
  "for_each [] f s = Inr s"
| "for_each (v # vs) f s = and_then (f v s) (for_each vs f)"

text \<open>\<open>if alien: alien.doDeath()\<close>: an alien object is always true, \<open>None\<close> is false.\<close>

definition kill_at :: "int \<times> int \<Rightarrow> world \<Rightarrow> error + world" where
  "kill_at c s =
     and_then (getAlien s c) (\<lambda>al. case al of None \<Rightarrow> Inr s | Some a \<Rightarrow> doDeath s a)"

definition affected_cells :: "int \<times> int \<Rightarrow> (int \<times> int) list" where
  "affected_cells epicenter =
     concat (map (\<lambda>dx. concat (map (\<lambda>dy.
        if 0 \<le> fst epicenter + dx \<and> fst epicenter + dx < WIDTH \<and>
           0 \<le> snd epicenter + dy \<and> snd epicenter + dy < HEIGHT
        then [(fst epicenter + dx, snd epicenter + dy)] else []) [- 1, 0, 1])) [- 1, 0, 1])"

definition trigger_bomb :: "world \<Rightarrow> int \<times> int \<Rightarrow> error + world" where
  "trigger_bomb s epicenter = for_each (affected_cells epicenter) kill_at s"

subsection \<open>Board: the attack\<close>

definition squish :: "world \<Rightarrow> int \<times> int \<Rightarrow> int \<Rightarrow> error + (world \<times> int)" where
  "squish s c k =
     (if \<not> (0 \<le> fst c \<and> fst c < width s \<and> 0 \<le> snd c \<and> snd c < height s)
      then Inr (s, - 1)
      else and_then (isEmpty s c) (\<lambda>e.
        if e then Inr (s, - 1)
        else and_then (getAlien s c) (\<lambda>al.
          case al of
            None \<Rightarrow> Inr (s, - 1)
          | Some a \<Rightarrow>
              (let sc = (if strength (heap s a) > k then k else strength (heap s a))
               in and_then (doPop s a k) (\<lambda>s1.
                  case the_player s1 of
                    None \<Rightarrow> Inl AttributeError
                  | Some p \<Rightarrow>
                      if sc > 0
                      then (let p1 = p\<lparr>consecutive_hits := consecutive_hits p + 1\<rparr>;
                                s2 = s1\<lparr>the_player := Some p1\<rparr>
                            in if consecutive_hits p1 \<ge> 5
                               then and_then (trigger_bomb s2 c) (\<lambda>s3.
                                    case the_player s3 of
                                      None \<Rightarrow> Inl AttributeError
                                    | Some p3 \<Rightarrow>
                                        Inr (s3\<lparr>the_player :=
                                                  Some (p3\<lparr>consecutive_hits := 0\<rparr>)\<rparr>, sc))
                               else Inr (s2, sc))
                      else Inr (s1\<lparr>the_player := Some (p\<lparr>consecutive_hits := 0\<rparr>)\<rparr>, sc))))))"

subsection \<open>Alien: spawning and growth\<close>

text \<open>
  \<open>random.shuffle\<close> is the library's in-place Fisher-Yates pass: for \<open>i\<close> from the last
  index down to \<open>1\<close> it draws \<open>j\<close> in \<open>0..i\<close> and swaps the entries \<open>i\<close> and \<open>j\<close>.
\<close>

primrec shuffle_from :: "nat list \<Rightarrow> 'a list \<Rightarrow> rng \<Rightarrow> 'a list \<times> rng" where
  "shuffle_from [] xs g = (xs, g)"
| "shuffle_from (i # rest) xs g =
     (let (j, g1) = randint 0 (int i) g
      in shuffle_from rest (xs[i := xs ! nat j, nat j := xs ! i]) g1)"

definition shuffle :: "'a list \<Rightarrow> rng \<Rightarrow> 'a list \<times> rng" where
  "shuffle xs g = shuffle_from (rev [1..<length xs]) xs g"

definition adjacent :: "world \<Rightarrow> nat \<Rightarrow> (int \<times> int) list" where
  "adjacent s a =
     (let x = xpos (heap s a); y = ypos (heap s a)
      in [(x + 1, y + 1), (x + 1, y), (x + 1, y - 1), (x, y + 1), (x, y - 1),
          (x - 1, y - 1), (x - 1, y), (x - 1, y + 1)])"

primrec first_empty :: "world \<Rightarrow> (int \<times> int) list \<Rightarrow> error + (int \<times> int) option" where
  "first_empty s [] = Inr None"
| "first_empty s (c # cs) =
     (if inRange s c
      then and_then (isEmpty s c) (\<lambda>e. if e then Inr (Some c) else first_empty s cs)
      else first_empty s cs)"

definition findEmptySpace :: "world \<Rightarrow> nat \<Rightarrow> rng \<Rightarrow> error + ((int \<times> int) option \<times> rng)" where
  "findEmptySpace s a g =
     (let (adj, g1) = shuffle (adjacent s a) g
      in and_then (first_empty s adj) (\<lambda>r. Inr (r, g1)))"

primrec neighbors_of :: "world \<Rightarrow> (int \<times> int) list \<Rightarrow> error + nat list" where
  "neighbors_of s [] = Inr []"
| "neighbors_of s (c # cs) =
     (if inRange s c
      then and_then (getAlien s c) (\<lambda>n.
           and_then (neighbors_of s cs) (\<lambda>ns.
           Inr (case n of None \<Rightarrow> ns | Some b \<Rightarrow> b # ns)))
      else neighbors_of s cs)"

definition getNeighbor :: "world \<Rightarrow> nat \<Rightarrow> rng \<Rightarrow> error + (nat option \<times> rng)" where
  "getNeighbor s a g =
     and_then (neighbors_of s (adjacent s a)) (\<lambda>neighbors.
     if neighbors = [] then Inr (None, g)
     else (let (k, g1) = randint 0 (int (length neighbors) - 1) g
           in Inr (Some (neighbors ! nat k), g1)))"

definition doSpawn :: "world \<Rightarrow> nat \<Rightarrow> rng \<Rightarrow> error + (world \<times> rng)" where
  "doSpawn s a g =
     and_then (findEmptySpace s a g) (\<lambda>(emptySpace, g1).
     and_then (getNeighbor s a g1) (\<lambda>(neighbor, g2).
     let (chance, g3) = randint 0 9 g2
     in case emptySpace of
          None \<Rightarrow> Inr (s, g3)
        | Some place \<Rightarrow>
            if neighbor \<noteq> None \<and> chance > 6
            then and_then (Alien_init s place (max 1 (strength (heap s a) - 1))) (\<lambda>(s1, child).
                 Inr (s1\<lparr>heap := (heap s1)(a := (heap s1 a)\<lparr>children :=
                            children (heap s1 a) @ [Some child]\<rparr>)\<rparr>, g3))
            else Inr (s, g3)))"

definition doGrow :: "world \<Rightarrow> nat \<Rightarrow> rng \<Rightarrow> world \<times> rng" where
  "doGrow s a g =
     (let (chance, g1) = randint 0 9 g
      in if strength (heap s a) < STRENGTH \<and> chance > 7
         then (s\<lparr>heap := (heap s)(a := (heap s a)\<lparr>strength := strength (heap s a) + 1\<rparr>)\<rparr>, g1)
         else (s, g1))"

subsection \<open>Time steps\<close>

definition Alien_doTimestep :: "world \<Rightarrow> nat \<Rightarrow> rng \<Rightarrow> error + (world \<times> rng)" where
  "Alien_doTimestep s a g =
     and_then (doTravel s a g) (\<lambda>(s1, g1).
     and_then (doSpawn s1 a g1) (\<lambda>(s2, g2).
     Inr (doGrow s2 a g2)))"

text \<open>The cells in scan order: \<open>for i in range(width): for j in range(height)\<close>.\<close>

definition scan_cells :: "world \<Rightarrow> (int \<times> int) list" where
  "scan_cells s = concat (map (\<lambda>i. map (\<lambda>j. (i, j)) [0..height s - 1]) [0..width s - 1])"

definition step_at :: "int \<times> int \<Rightarrow> world \<times> rng \<Rightarrow> error + (world \<times> rng)" where
  "step_at c sg =
     and_then (getAlien (fst sg) c) (\<lambda>al.
     case al of
       None \<Rightarrow> Inr sg
     | Some a \<Rightarrow> if squished (heap (fst sg) a) then Inr sg
                 else Alien_doTimestep (fst sg) a (snd sg))"

definition Board_doTimestep :: "world \<Rightarrow> rng \<Rightarrow> error + (world \<times> rng)" where
  "Board_doTimestep s g = for_each (scan_cells s) step_at (s, g)"

definition Player_doTimestep :: "world \<Rightarrow> error + world" where
  "Player_doTimestep s =
     (case the_player s of
        None \<Rightarrow> Inl AttributeError
      | Some p \<Rightarrow> Inr (s\<lparr>the_player := Some (p\<lparr>turn := turn p + 1\<rparr>)\<rparr>))"

subsection \<open>The lineage collector\<close>

text \<open>
  A stack frame is \<open>(alien, parent, index_in_parent)\<close>; the top of the stack is the end of
  the list. The loop runs for as long as the stack is not empty, so it is a partial
  function: \<open>None\<close> stands for a run that never ends.
\<close>

type_synonym frame = "nat option \<times> nat option \<times> nat"

partial_function (option) gc_loop ::
  "(nat \<Rightarrow> alien) \<Rightarrow> frame list \<Rightarrow> (error + (nat \<Rightarrow> alien)) option" where
  "gc_loop h stack =
     (if stack = [] then Some (Inr h)
      else case last stack of (current_alien, parent, idx) \<Rightarrow>
        (case current_alien of
           None \<Rightarrow> Some (Inl AttributeError)
         | Some c \<Rightarrow>
             if squished (h c)
             then (case parent of
                     None \<Rightarrow> gc_loop h (butlast stack)
                   | Some p \<Rightarrow>
                       (case py_set (children (h p)) (int idx) None of
                          Inl e \<Rightarrow> Some (Inl e)
                        | Inr cs \<Rightarrow> gc_loop (h(p := (h p)\<lparr>children := cs\<rparr>)) (butlast stack)))
             else gc_loop h (butlast stack @
                    map (\<lambda>(i, child). (child, Some c, i)) (enumerate 0 (children (h c))))))"

declare gc_loop.simps [code]

text \<open>
  One pass through the body of the loop, for stating what the loop keeps invariant: the
  loop is done with a result, or goes on with a heap and a stack.
\<close>

datatype gc_next = Done "error + (nat \<Rightarrow> alien)" | Next "nat \<Rightarrow> alien" "frame list"

definition gc_step :: "(nat \<Rightarrow> alien) \<Rightarrow> frame list \<Rightarrow> gc_next" where
  "gc_step h stack =
     (if stack = [] then Done (Inr h)
      else case last stack of (current_alien, parent, idx) \<Rightarrow>
        (case current_alien of
           None \<Rightarrow> Done (Inl AttributeError)
         | Some c \<Rightarrow>
             if squished (h c)
             then (case parent of
                     None \<Rightarrow> Next h (butlast stack)
                   | Some p \<Rightarrow>
                       (case py_set (children (h p)) (int idx) None of
                          Inl e \<Rightarrow> Done (Inl e)
                        | Inr cs \<Rightarrow> Next (h(p := (h p)\<lparr>children := cs\<rparr>)) (butlast stack)))
             else Next h (butlast stack @
                    map (\<lambda>(i, child). (child, Some c, i)) (enumerate 0 (children (h c))))))"

definition gc_root :: "(nat \<Rightarrow> alien) \<Rightarrow> nat \<Rightarrow> (error + (nat \<Rightarrow> alien)) option" where
  "gc_root h root_alien =
     (if squished (h root_alien) then Some (Inr h)
      else case gc_loop h [(Some root_alien, None, 0)] of
             None \<Rightarrow> None
           | Some (Inl e) \<Rightarrow> Some (Inl e)
           | Some (Inr h1) \<Rightarrow>
               Some (Inr (if \<not> squished (h1 root_alien)
                          then h1(root_alien := (h1 root_alien)\<lparr>children :=
                                 filter (\<lambda>child. child \<noteq> None) (children (h1 root_alien))\<rparr>)
                          else h1)))"

primrec gc_roots :: "nat list \<Rightarrow> (nat \<Rightarrow> alien) \<Rightarrow> (error + (nat \<Rightarrow> alien)) option" where
  "gc_roots [] h = Some (Inr h)"
| "gc_roots (r # rs) h =
     (case gc_root h r of
        None \<Rightarrow> None
      | Some (Inl e) \<Rightarrow> Some (Inl e)
      | Some (Inr h1) \<Rightarrow> gc_roots rs h1)"

definition garbage_collect :: "world \<Rightarrow> nat list \<Rightarrow> (error + (world \<times> nat list)) option" where
  "garbage_collect s aliens =
     (case gc_roots aliens (heap s) of
        None \<Rightarrow> None
      | Some (Inl e) \<Rightarrow> Some (Inl e)
      | Some (Inr h1) \<Rightarrow>
          Some (Inr (s\<lparr>heap := h1\<rparr>,
                     filter (\<lambda>a. (\<not> squished (h1 a) \<and> children (h1 a) \<noteq> []) \<or> \<not> squished (h1 a))
                            aliens)))"

subsection \<open>The driver's steps that change the engine's state\<close>

definition nuke_board :: "world \<Rightarrow> error + world" where
  "nuke_board s = for_each (scan_cells s) kill_at s"

definition alive_aliens :: "world \<Rightarrow> nat list" where
  "alive_aliens s =
     concat (map (\<lambda>row. concat (map (\<lambda>cell.
        case cell of None \<Rightarrow> [] | Some a \<Rightarrow> if squished (heap s a) then [] else [a]) row))
       (board s))"

text \<open>
  The win check at the head of the main loop; the flag tells whether the loop is left
  with the win message.
\<close>

definition nuke_check :: "world \<Rightarrow> error + (world \<times> bool)" where
  "nuke_check s =
     (case the_player s of
        None \<Rightarrow> Inl AttributeError
      | Some p \<Rightarrow>
          if turn p > 5
          then (let total_alien_strength = sum_list (map (\<lambda>a. strength (heap s a)) (alive_aliens s))
                in if total_alien_strength < pstrength p
                   then and_then (nuke_board s) (\<lambda>s1. Inr (s1, True))
                   else Inr (s, False))
          else Inr (s, False))"

text \<open>The placement of a new root: \<open>if board.isEmpty((x, y)): aliens.append(Alien(...))\<close>.\<close>

definition place_root ::
  "world \<Rightarrow> nat list \<Rightarrow> int \<times> int \<Rightarrow> int \<Rightarrow> error + (world \<times> nat list)" where
  "place_root s aliens c k =
     and_then (isEmpty s c) (\<lambda>e.
     if e then and_then (Alien_init s c k) (\<lambda>(s1, a). Inr (s1, aliens @ [a]))
     else Inr (s, aliens))"

subsection \<open>Sequences of operations\<close>

text \<open>
  The operations that change the state of the engine, as the driver calls them: the
  placement of a root, the attack, the area effect, the time step of the board with its
  random draws, the player's turn count, the collection and the win check.
\<close>

datatype op =
  Place "int \<times> int" int
| Attack "int \<times> int" int
| Bomb "int \<times> int"
| Timestep rng
| Turn
| Collect
| WinCheck

fun exec :: "op \<Rightarrow> world \<times> nat list \<Rightarrow> (error + world \<times> nat list) option" where
  "exec (Place c k) (s, aliens) = Some (place_root s aliens c k)"
| "exec (Attack c k) (s, aliens) =
     Some (and_then (squish s c k) (\<lambda>(s1, sc). Inr (s1, aliens)))"
| "exec (Bomb c) (s, aliens) = Some (and_then (trigger_bomb s c) (\<lambda>s1. Inr (s1, aliens)))"
| "exec (Timestep g) (s, aliens) =
     Some (and_then (Board_doTimestep s g) (\<lambda>(s1, g1). Inr (s1, aliens)))"
| "exec Turn (s, aliens) = Some (and_then (Player_doTimestep s) (\<lambda>s1. Inr (s1, aliens)))"
| "exec Collect (s, aliens) = garbage_collect s aliens"
| "exec WinCheck (s, aliens) =
     Some (and_then (nuke_check s) (\<lambda>(s1, won). Inr (s1, aliens)))"

fun run :: "op list \<Rightarrow> world \<times> nat list \<Rightarrow> (error + world \<times> nat list) option" where
  "run [] st = Some (Inr st)"
| "run (x # xs) st =
     (case exec x st of
        None \<Rightarrow> None
      | Some (Inl e) \<Rightarrow> Some (Inl e)
      | Some (Inr st1) \<Rightarrow> run xs st1)"

text \<open>Every entity whose strength is below 1 is marked dead.\<close>

definition low_dead :: "world \<Rightarrow> bool" where
  "low_dead s \<longleftrightarrow> (\<forall>a < next_ref s. strength (heap s a) < 1 \<longrightarrow> squished (heap s a))"

text \<open>No entity is lost and no dead flag is cleared.\<close>

definition grows :: "world \<Rightarrow> world \<Rightarrow> bool" where
  "grows s s' \<longleftrightarrow>
     next_ref s \<le> next_ref s' \<and> (\<forall>a < next_ref s. squished (heap s a) \<longrightarrow> squished (heap s' a))"

definition life_ok :: "world \<Rightarrow> world \<Rightarrow> bool" where
  "life_ok s s' \<longleftrightarrow> (low_dead s \<longrightarrow> low_dead s') \<and> grows s s'"

text \<open>The same entities with the same strengths and flags.\<close>

definition same_life :: "world \<Rightarrow> world \<Rightarrow> bool" where
  "same_life s s' \<longleftrightarrow>
     next_ref s' = next_ref s \<and>
     (\<forall>b. strength (heap s' b) = strength (heap s b) \<and>
          squished (heap s' b) = squished (heap s b))"

text \<open>The collector changes child lists only.\<close>

definition same_but_children :: "(nat \<Rightarrow> alien) \<Rightarrow> (nat \<Rightarrow> alien) \<Rightarrow> bool" where
  "same_but_children h h' \<longleftrightarrow> (\<forall>b. h' b = (h b)\<lparr>children := children (h' b)\<rparr>)"

subsection \<open>The lineage as a forest\<close>

text \<open>
  The lineage below \<open>N\<close> is a forest: child lists hold no null slot and name younger
  entities, no entity is named twice, and the roots of the registry are distinct entities
  that are nobody's child.
\<close>

definition forest :: "nat \<Rightarrow> (nat \<Rightarrow> alien) \<Rightarrow> nat list \<Rightarrow> bool" where
  "forest N h roots \<longleftrightarrow>
     (\<forall>p \<in> set [0..<N]. \<forall>c \<in> set (children (h p)).
        case c of None \<Rightarrow> False | Some k \<Rightarrow> p < k \<and> k < N) \<and>
     (\<forall>p \<in> set [0..<N]. distinct (children (h p))) \<and>
     (\<forall>p \<in> set [0..<N]. \<forall>q \<in> set [0..<N]. \<forall>c \<in> set (children (h p)).
        c \<in> set (children (h q)) \<longrightarrow> p = q) \<and>
     distinct roots \<and>
     (\<forall>r \<in> set roots. r < N \<and> (\<forall>p \<in> set [0..<N]. Some r \<notin> set (children (h p))))"

text \<open>The entities that the registry reaches through child lists.\<close>

inductive_set reach :: "(nat \<Rightarrow> alien) \<Rightarrow> nat set \<Rightarrow> nat set" for h :: "nat \<Rightarrow> alien" and R :: "nat set" where
  root: "r \<in> R \<Longrightarrow> r \<in> reach h R"
| child: "p \<in> reach h R \<Longrightarrow> Some k \<in> set (children (h p)) \<Longrightarrow> k \<in> reach h R"

text \<open>The live entities that the registry reaches through live entities only.\<close>

inductive_set live_reach :: "(nat \<Rightarrow> alien) \<Rightarrow> nat set \<Rightarrow> nat set" for h :: "nat \<Rightarrow> alien" and R :: "nat set" where
  root: "r \<in> R \<Longrightarrow> \<not> squished (h r) \<Longrightarrow> r \<in> live_reach h R"
| child: "p \<in> live_reach h R \<Longrightarrow> Some k \<in> set (children (h p)) \<Longrightarrow> \<not> squished (h k) \<Longrightarrow>
          k \<in> live_reach h R"

text \<open>
  What holds of the heap \<open>h\<close> while the collector works on the heap \<open>h0\<close> with the roots
  \<open>R\<close>: \<open>D\<close> are the roots it has come to, \<open>V\<close> the live entities it has visited.
\<close>

definition gc_heap_inv ::
  "nat \<Rightarrow> (nat \<Rightarrow> alien) \<Rightarrow> nat set \<Rightarrow> nat set \<Rightarrow> nat set \<Rightarrow> (nat \<Rightarrow> alien) \<Rightarrow> bool" where
  "gc_heap_inv N h0 R D V h \<longleftrightarrow>
     D \<subseteq> R \<and> same_but_children h0 h \<and>
     (\<forall>b. b \<notin> V \<longrightarrow> children (h b) = children (h0 b)) \<and>
     (\<forall>b k. Some k \<in> set (children (h b)) \<longrightarrow> Some k \<in> set (children (h0 b))) \<and>
     (\<forall>b k. Some k \<in> set (children (h0 b)) \<longrightarrow> \<not> squished (h0 k) \<longrightarrow>
            Some k \<in> set (children (h b))) \<and>
     (\<forall>v \<in> V. v < N \<and> \<not> squished (h0 v) \<and>
            (v \<in> D \<or> (\<exists>p \<in> V. Some v \<in> set (children (h0 p)))))"

text \<open>What holds of the stack: the frames are of entities not yet visited.\<close>

definition gc_frames_inv ::
  "nat \<Rightarrow> (nat \<Rightarrow> alien) \<Rightarrow> nat set \<Rightarrow> nat set \<Rightarrow> (nat \<Rightarrow> alien) \<Rightarrow> frame list \<Rightarrow> bool" where
  "gc_frames_inv N h0 D V h stk \<longleftrightarrow>
     (\<forall>f \<in> set stk. \<exists>k. fst f = Some k \<and> k < N \<and> k \<notin> V \<and>
        (case fst (snd f) of
           None \<Rightarrow> k \<in> D
         | Some q \<Rightarrow> q \<in> V \<and> snd (snd f) < length (children (h q)) \<and>
                     children (h q) ! snd (snd f) = Some k)) \<and>
     distinct (map fst stk) \<and>
     (\<forall>p \<in> V. \<forall>i < length (children (h p)). \<forall>k. children (h p) ! i = Some k \<longrightarrow>
        (k \<in> V \<or> (Some k, Some p, i) \<in> set stk)) \<and>
     (\<forall>r \<in> D. \<not> squished (h0 r) \<longrightarrow> r \<in> V \<or> (\<exists>i. (Some r, None, i) \<in> set stk))"

definition wt :: "nat \<Rightarrow> frame \<Rightarrow> nat" where
  "wt N f = (case fst f of None \<Rightarrow> 0 | Some k \<Rightarrow> N - k)"

definition gc_less :: "nat \<Rightarrow> (((nat \<Rightarrow> alien) \<times> frame list) \<times> ((nat \<Rightarrow> alien) \<times> frame list)) set" where
  "gc_less N = inv_image (mult less_than) (\<lambda>x. mset (map (wt N) (snd x)))"

text \<open>The invariant of the loop, for some set of visited entities.\<close>

definition gc_inv ::
  "nat \<Rightarrow> (nat \<Rightarrow> alien) \<Rightarrow> nat set \<Rightarrow> nat set \<Rightarrow> (nat \<Rightarrow> alien) \<Rightarrow> frame list \<Rightarrow> bool" where
  "gc_inv N h0 R D h stk \<longleftrightarrow>
     (\<exists>V. gc_heap_inv N h0 R D V h \<and> gc_frames_inv N h0 D V h stk)"

subsection \<open>Well-formed states\<close>

text \<open>A board of \<open>height\<close> rows with \<open>width\<close> cells each.\<close>

definition rect :: "world \<Rightarrow> bool" where
  "rect s \<longleftrightarrow> length (board s) = nat (height s) \<and>
              (\<forall>row \<in> set (board s). length row = nat (width s))"

text \<open>The fixed board of the game: \<open>Board(HEIGHT, WIDTH)\<close>.\<close>

definition shape :: "world \<Rightarrow> bool" where
  "shape s \<longleftrightarrow> rect s \<and> height s = HEIGHT \<and> width s = WIDTH"

definition cell_at :: "world \<Rightarrow> int \<times> int \<Rightarrow> nat option" where
  "cell_at s c = board s ! nat (fst c) ! nat (snd c)"

text \<open>The world with the value \<open>v\<close> in the cell \<open>c\<close>, for a cell of the board.\<close>

definition put :: "world \<Rightarrow> int \<times> int \<Rightarrow> nat option \<Rightarrow> world" where
  "put s c v =
     s\<lparr>board := (board s)[nat (fst c) := (board s ! nat (fst c))[nat (snd c) := v]]\<rparr>"

text \<open>Every entity on the grid has the cell that holds it as its stored \<open>coords\<close>.\<close>

definition synced :: "world \<Rightarrow> bool" where
  "synced s =
     list_all (\<lambda>c. case cell_at s c of None \<Rightarrow> True | Some a \<Rightarrow> coords (heap s a) = c)
       (scan_cells s)"

text \<open>The state after the death of an entity that is stored at a cell of the board.\<close>

definition dead :: "world \<Rightarrow> nat \<Rightarrow> world" where
  "dead s a =
     (put s (coords (heap s a)) None)\<lparr>heap := (heap s)(a := (heap s a)\<lparr>squished := True\<rparr>)\<rparr>"

text \<open>
  What a run of deaths may change between two states: \<open>squished\<close> flags get set and the
  cells of entities that died get cleared.
\<close>

definition only_deaths :: "world \<Rightarrow> world \<Rightarrow> bool" where
  "only_deaths s s' \<longleftrightarrow>
     shape s' \<and> synced s' \<and> the_player s' = the_player s \<and> next_ref s' = next_ref s \<and>
     height s' = height s \<and> width s' = width s \<and>
     (\<forall>a. heap s' a = (heap s a)\<lparr>squished := squished (heap s' a)\<rparr>) \<and>
     (\<forall>a. squished (heap s a) \<longrightarrow> squished (heap s' a)) \<and>
     (\<forall>c. inRange s c \<longrightarrow>
        cell_at s' c = cell_at s c \<or>
        (cell_at s' c = None \<and> (\<exists>a. cell_at s c = Some a \<and> squished (heap s' a))))"

subsection \<open>Example states\<close>

definition start :: world where
  "start = (Board_init HEIGHT WIDTH)\<lparr>the_player := Some Player_init\<rparr>"

text \<open>The state after the placements \<open>cks\<close>, or the start state when one of them raises.\<close>

primrec placed :: "((int \<times> int) \<times> int) list \<Rightarrow> world \<Rightarrow> world" where
  "placed [] s = s"
| "placed (ck # cks) s =
     (case Alien_init s (fst ck) (snd ck) of Inl e \<Rightarrow> start | Inr (s1, a) \<Rightarrow> placed cks s1)"

text \<open>A generator that yields the given draws, then zeros.\<close>

definition draws :: "int list \<Rightarrow> rng" where
  "draws ds = (\<lambda>n. if n < length ds then ds ! n else 0)"

text \<open>Alien 0 of strength 5 at \<open>(0, 0)\<close> and alien 1 of strength 3 beside it at \<open>(0, 1)\<close>.\<close>

definition duo :: world where
  "duo = placed [((0, 0), 5), ((0, 1), 3)] start"

text \<open>A run of attacks, with the score of each.\<close>

primrec attacks :: "((int \<times> int) \<times> int) list \<Rightarrow> world \<Rightarrow> error + (world \<times> int list)" where
  "attacks [] s = Inr (s, [])"
| "attacks (t # ts) s =
     and_then (squish s (fst t) (snd t)) (\<lambda>(s1, sc).
     and_then (attacks ts s1) (\<lambda>(s2, scs). Inr (s2, sc # scs)))"

text \<open>Two aliens of strength 9 far from each other, at \<open>(0, 0)\<close> and at \<open>(5, 5)\<close>.\<close>

definition apart :: world where
  "apart = placed [((0, 0), 9), ((5, 5), 9)] start"

text \<open>
  A lineage of three generations: on \<open>duo\<close>, the root 0 spawns alien 2, alien 2 spawns
  alien 3, and an attack of strength 9 kills alien 3.
\<close>

definition spawn_draws :: rng where
  "spawn_draws = draws [0, 0, 0, 0, 0, 0, 0, 0, 9]"

definition lineage :: world where
  "lineage =
     (case doSpawn duo 0 spawn_draws of
        Inl e \<Rightarrow> start
      | Inr (s1, g1) \<Rightarrow>
          (case doSpawn s1 2 spawn_draws of
             Inl e \<Rightarrow> start
           | Inr (s2, g2) \<Rightarrow>
               (case squish s2 (coords (heap s2 3)) 9 of
                  Inl e \<Rightarrow> start
                | Inr (s3, sc) \<Rightarrow> s3)))"

text \<open>
  Two weak aliens side by side, alien 0 at \<open>(0, 0)\<close> and alien 1 at \<open>(0, 1)\<close>, each of
  strength 1, facing a player of strength 3 in turn 6.
\<close>

definition weak_neighbours :: world where
  "weak_neighbours =
     (placed [((0, 0), 1), ((0, 1), 1)] start)
       \<lparr>the_player := Some \<lparr>score = 0, pstrength = 3, turn = 6, consecutive_hits = 0\<rparr>\<rparr>"

text \<open>One alien of strength 2 at \<open>(3, 3)\<close>.\<close>

definition lone :: world where
  "lone = placed [((3, 3), 2)] start"

text \<open>
  A lineage with every kind of loss: the live root 0 has the dead child 1, whose child 4 is
  alive and has the dead child 7, and the live child 2, whose child 6 is dead; the dead
  root 3 has the live child 5.
\<close>

definition family :: world where
  "family = start
     \<lparr>heap := (\<lambda>_. new_alien)
        (0 := new_alien\<lparr>strength := 5, children := [Some 1, Some 2]\<rparr>,
         1 := new_alien\<lparr>strength := - 1, squished := True, children := [Some 4]\<rparr>,
         2 := new_alien\<lparr>strength := 3, children := [Some 6]\<rparr>,
         3 := new_alien\<lparr>squished := True, children := [Some 5]\<rparr>,
         4 := new_alien\<lparr>strength := 2, children := [Some 7]\<rparr>,
         5 := new_alien\<lparr>strength := 2\<rparr>,
         6 := new_alien\<lparr>squished := True\<rparr>,
         7 := new_alien\<lparr>squished := True\<rparr>),
      next_ref := 8\<rparr>"

text \<open>A short game that uses every operation.\<close>

definition short_game :: "op list" where
  "short_game = [Place (6, 6) 6, Timestep (draws []), Place (3, 3) 2, Attack (3, 3) 3, Turn,
                 Collect, WinCheck]"

subsection \<open>The board invariant\<close>

text \<open>The cells whose grid slot holds the entity \<open>a\<close>, in scan order of the rows.\<close>

definition cells_of :: "world \<Rightarrow> nat \<Rightarrow> (int \<times> int) list" where
  "cells_of s a =
     concat (map (\<lambda>i. concat (map (\<lambda>j.
        if board s ! i ! j = Some a then [(int i, int j)] else [])
        [0..<length (board s ! i)])) [0..<length (board s)])"

text \<open>
  Every live entity is held by exactly one cell, and that cell is the entity's stored
  position (\<open>coords\<close>, which agrees with \<open>x\<close> and \<open>y\<close>).
\<close>

definition board_inv :: "world \<Rightarrow> bool" where
  "board_inv s =
     list_all (\<lambda>a. squished (heap s a) \<or>
                    (cells_of s a = [coords (heap s a)] \<and>
                     coords (heap s a) = (xpos (heap s a), ypos (heap s a))))
       [0..<next_ref s]"

section \<open>Properties\<close>

subsection \<open>Basic facts\<close>

lemma and_then_Inr [simp]: "and_then (Inr v) f = f v"
  by (simp add: and_then_def)

lemma and_then_Inl [simp]: "and_then (Inl e) f = Inl e"
  by (simp add: and_then_def)

lemma and_then_eq_Inr:
  "and_then m f = Inr r \<longleftrightarrow> (\<exists>v. m = Inr v \<and> f v = Inr r)"
  by (cases m) simp_all

lemma py_get_wrap:
  "- int (length xs) \<le> i \<Longrightarrow> i < int (length xs) \<Longrightarrow>
   py_get xs i = Inr (xs ! nat (if i < 0 then int (length xs) + i else i))"
  by (simp add: py_get_def py_slot_def)

subsection \<open>Cells of the fixed board\<close>

lemma scan_cells_set: "set (scan_cells s) = {c. inRange s c}"
  by (auto simp: scan_cells_def inRange_def)

lemma shape_index:
  assumes "shape s" "inRange s c"
  shows "0 \<le> fst c" "0 \<le> snd c" "nat (fst c) < length (board s)"
    "nat (snd c) < length (board s ! nat (fst c))"
proof -
  from assms show a: "0 \<le> fst c" "0 \<le> snd c" by (auto simp: inRange_def)
  from assms show b: "nat (fst c) < length (board s)"
    by (auto simp: shape_def rect_def inRange_def HEIGHT_def WIDTH_def)
  hence "board s ! nat (fst c) \<in> set (board s)" by simp
  with assms show "nat (snd c) < length (board s ! nat (fst c))"
    by (auto simp: shape_def rect_def inRange_def HEIGHT_def WIDTH_def)
qed

lemma py_get_nat: "0 \<le> i \<Longrightarrow> nat i < length xs \<Longrightarrow> py_get xs i = Inr (xs ! nat i)"
  by (auto simp: py_get_def py_slot_def)

lemma py_set_nat: "0 \<le> i \<Longrightarrow> nat i < length xs \<Longrightarrow> py_set xs i v = Inr (xs[nat i := v])"
  by (auto simp: py_set_def py_slot_def)

lemma getAlien_cell: "shape s \<Longrightarrow> inRange s c \<Longrightarrow> getAlien s c = Inr (cell_at s c)"
  by (simp add: getAlien_def cell_at_def py_get_nat shape_index)

lemma set_cell_put: "shape s \<Longrightarrow> inRange s c \<Longrightarrow> set_cell s c v = Inr (put s c v)"
  by (simp add: set_cell_def put_def py_get_nat py_set_nat shape_index)

lemma put_fields [simp]:
  "heap (put s c v) = heap s" "next_ref (put s c v) = next_ref s"
  "height (put s c v) = height s" "width (put s c v) = width s"
  "the_player (put s c v) = the_player s"
  by (simp_all add: put_def)

lemma inRange_put [simp]: "inRange (put s c v) d = inRange s d"
  by (simp add: inRange_def)

lemma rect_put: "rect s \<Longrightarrow> rect (put s c v)"
proof (cases "nat (fst c) < length (board s)")
  case True
  assume r: "rect s"
  let ?row = "(board s ! nat (fst c))[nat (snd c) := v]"
  from True r have "length ?row = nat (width s)" by (simp add: rect_def)
  moreover have "set ((board s)[nat (fst c) := ?row]) \<subseteq> insert ?row (set (board s))"
    by (rule set_update_subset_insert)
  ultimately show ?thesis using r by (auto simp: rect_def put_def)
next
  case False
  assume r: "rect s"
  from False have "(board s)[nat (fst c) := (board s ! nat (fst c))[nat (snd c) := v]] = board s"
    by (simp add: list_update_beyond)
  with r show ?thesis by (simp add: rect_def put_def)
qed

lemma shape_put: "shape s \<Longrightarrow> shape (put s c v)"
  by (simp add: shape_def rect_put)

lemma cell_at_put:
  "shape s \<Longrightarrow> inRange s c \<Longrightarrow> inRange s d \<Longrightarrow>
   cell_at (put s c v) d = (if d = c then v else cell_at s d)"
  using shape_index [of s c] shape_index [of s d]
  by (cases c; cases d) (auto simp: cell_at_def put_def nth_list_update)


lemma syncedD:
  "synced s \<Longrightarrow> inRange s c \<Longrightarrow> cell_at s c = Some a \<Longrightarrow> coords (heap s a) = c"
proof -
  assume "synced s" and r: "inRange s c" and a: "cell_at s c = Some a"
  hence "\<forall>c \<in> {c. inRange s c}. case cell_at s c of None \<Rightarrow> True | Some a \<Rightarrow> coords (heap s a) = c"
    by (simp add: synced_def list_all_iff scan_cells_set)
  with r have "case cell_at s c of None \<Rightarrow> True | Some a \<Rightarrow> coords (heap s a) = c" by blast
  with a show ?thesis by simp
qed

lemma syncedI:
  "(\<And>c a. inRange s c \<Longrightarrow> cell_at s c = Some a \<Longrightarrow> coords (heap s a) = c) \<Longrightarrow> synced s"
  unfolding synced_def list_all_iff scan_cells_set by (auto split: option.splits)

lemma only_deaths_refl: "shape s \<Longrightarrow> synced s \<Longrightarrow> only_deaths s s"
  by (simp add: only_deaths_def)

lemma only_deathsD:
  assumes "only_deaths s s'"
  shows "shape s'" "synced s'" "the_player s' = the_player s" "next_ref s' = next_ref s"
    "height s' = height s" "width s' = width s"
    "heap s' a = (heap s a)\<lparr>squished := squished (heap s' a)\<rparr>"
    "squished (heap s a) \<Longrightarrow> squished (heap s' a)"
    "inRange s c \<Longrightarrow> cell_at s' c = cell_at s c \<or>
        (cell_at s' c = None \<and> (\<exists>b. cell_at s c = Some b \<and> squished (heap s' b)))"
  using assms unfolding only_deaths_def by blast+

lemma only_deaths_inRange: "only_deaths s s' \<Longrightarrow> inRange s' c = inRange s c"
  by (simp add: only_deaths_def inRange_def)

lemma only_deaths_trans:
  assumes 1: "only_deaths s s1" and 2: "only_deaths s1 s2"
  shows "only_deaths s s2"
  unfolding only_deaths_def
proof (intro conjI allI impI)
  show "shape s2" "synced s2" using 2 by (rule only_deathsD)+
  show "the_player s2 = the_player s" "next_ref s2 = next_ref s"
    "height s2 = height s" "width s2 = width s"
    using only_deathsD(3-6) [OF 1] only_deathsD(3-6) [OF 2] by simp_all
next
  fix a
  have "heap s2 a = (heap s1 a)\<lparr>squished := squished (heap s2 a)\<rparr>"
    by (rule only_deathsD(7) [OF 2])
  also have "heap s1 a = (heap s a)\<lparr>squished := squished (heap s1 a)\<rparr>"
    by (rule only_deathsD(7) [OF 1])
  finally show "heap s2 a = (heap s a)\<lparr>squished := squished (heap s2 a)\<rparr>" by simp
next
  fix a assume "squished (heap s a)"
  thus "squished (heap s2 a)" using only_deathsD(8) [OF 1] only_deathsD(8) [OF 2] by blast
next
  fix c assume r: "inRange s c"
  hence r1: "inRange s1 c" using 1 by (simp add: only_deaths_inRange)
  from only_deathsD(9) [OF 1 r] only_deathsD(9) [OF 2 r1] only_deathsD(8) [OF 2]
  show "cell_at s2 c = cell_at s c \<or>
        (cell_at s2 c = None \<and> (\<exists>a. cell_at s c = Some a \<and> squished (heap s2 a)))"
    by metis
qed

lemma doDeath_dead:
  "shape s \<Longrightarrow> inRange s (coords (heap s a)) \<Longrightarrow> doDeath s a = Inr (dead s a)"
proof -
  assume s: "shape s" and r: "inRange s (coords (heap s a))"
  let ?s1 = "s\<lparr>heap := (heap s)(a := (heap s a)\<lparr>squished := True\<rparr>)\<rparr>"
  have "shape ?s1" using s by (simp add: shape_def rect_def)
  moreover have "inRange ?s1 (coords (heap s a))" using r by (simp add: inRange_def)
  ultimately have "set_cell ?s1 (coords (heap s a)) None = Inr (put ?s1 (coords (heap s a)) None)"
    by (rule set_cell_put)
  thus ?thesis by (simp add: doDeath_def clearCell_def dead_def put_def Let_def)
qed

lemma dead_only_deaths:
  assumes s: "shape s" and y: "synced s" and r: "inRange s c" and a: "cell_at s c = Some a"
  shows "only_deaths s (dead s a)" "cell_at (dead s a) c = None"
proof -
  have co: "coords (heap s a) = c" using y r a by (rule syncedD)
  let ?s1 = "s\<lparr>heap := (heap s)(a := (heap s a)\<lparr>squished := True\<rparr>)\<rparr>"
  have d: "dead s a = (put s c None)\<lparr>heap := heap ?s1\<rparr>" by (simp add: dead_def co)
  have sh: "shape (dead s a)" using shape_put [OF s, of c None] by (simp add: d shape_def rect_def)
  have ce: "cell_at (dead s a) e = (if e = c then None else cell_at s e)" if "inRange s e" for e
    using cell_at_put [OF s r that, of None] by (simp add: d cell_at_def)
  from ce r show "cell_at (dead s a) c = None" by simp
  have ir: "inRange (dead s a) e = inRange s e" for e by (simp add: d inRange_def)
  have sy: "synced (dead s a)"
  proof (rule syncedI)
    fix e b assume "inRange (dead s a) e" "cell_at (dead s a) e = Some b"
    hence "inRange s e" "cell_at s e = Some b" using ce ir by (auto split: if_splits)
    hence "coords (heap s b) = e" using y by (simp add: syncedD)
    thus "coords (heap (dead s a) b) = e" by (auto simp: d)
  qed
  show "only_deaths s (dead s a)"
    unfolding only_deaths_def
  proof (intro conjI allI impI)
    show "shape (dead s a)" "synced (dead s a)" by (rule sh, rule sy)
    show "the_player (dead s a) = the_player s" "next_ref (dead s a) = next_ref s"
      "height (dead s a) = height s" "width (dead s a) = width s"
      by (simp_all add: d)
  next
    fix b show "heap (dead s a) b = (heap s b)\<lparr>squished := squished (heap (dead s a) b)\<rparr>"
      by (simp add: d)
  next
    fix b assume "squished (heap s b)" thus "squished (heap (dead s a) b)" by (simp add: d)
  next
    fix e assume "inRange s e"
    thus "cell_at (dead s a) e = cell_at s e \<or>
          (cell_at (dead s a) e = None \<and> (\<exists>b. cell_at s e = Some b \<and> squished (heap (dead s a) b)))"
      using ce a by (auto simp: d)
  qed
qed

lemma kill_at_only_deaths:
  assumes "shape s" "synced s" "inRange s c"
  shows "\<exists>s'. kill_at c s = Inr s' \<and> only_deaths s s' \<and> cell_at s' c = None"
proof (cases "cell_at s c")
  case None
  with assms show ?thesis by (simp add: kill_at_def getAlien_cell only_deaths_refl)
next
  case (Some a)
  with assms have "coords (heap s a) = c" by (simp add: syncedD)
  with assms have "doDeath s a = Inr (dead s a)" by (simp add: doDeath_dead)
  with assms Some dead_only_deaths [OF assms Some] show ?thesis
    by (simp add: kill_at_def getAlien_cell)
qed

lemma for_each_kill_at:
  "shape s \<Longrightarrow> synced s \<Longrightarrow> \<forall>c \<in> set cs. inRange s c \<Longrightarrow>
   \<exists>s'. for_each cs kill_at s = Inr s' \<and> only_deaths s s' \<and> (\<forall>c \<in> set cs. cell_at s' c = None)"
proof (induction cs arbitrary: s)
  case Nil
  then show ?case by (simp add: only_deaths_refl)
next
  case (Cons c cs)
  from Cons.prems obtain s1 where 1: "kill_at c s = Inr s1" "only_deaths s s1" "cell_at s1 c = None"
    using kill_at_only_deaths [of s c] by auto
  have r1: "\<forall>d \<in> set cs. inRange s1 d" using Cons.prems 1(2) by (simp add: only_deaths_inRange)
  from Cons.IH [OF only_deathsD(1,2) [OF 1(2)] r1]
  obtain s' where 2: "for_each cs kill_at s1 = Inr s'" "only_deaths s1 s'"
    "\<forall>d \<in> set cs. cell_at s' d = None" by auto
  have "inRange s1 c" using Cons.prems 1(2) by (simp add: only_deaths_inRange)
  from only_deathsD(9) [OF 2(2) this] 1(3) have "cell_at s' c = None" by auto
  with 1 2 only_deaths_trans [OF 1(2) 2(2)] show ?case by simp
qed

subsection \<open>Entities on the grid\<close>

lemma on_grid_cell:
  assumes "shape s" "row \<in> set (board s)" "Some a \<in> set row"
  shows "\<exists>c. inRange s c \<and> cell_at s c = Some a"
proof -
  from assms(2) obtain i where i: "i < length (board s)" "row = board s ! i"
    by (auto simp: in_set_conv_nth)
  from assms(3) obtain j where j: "j < length row" "row ! j = Some a"
    by (auto simp: in_set_conv_nth)
  from assms(1,2) have "length row = nat (width s)" "length (board s) = nat (height s)"
    "height s = HEIGHT" "width s = WIDTH"
    by (auto simp: shape_def rect_def)
  with i j have "inRange s (int i, int j)"
    by (auto simp: inRange_def HEIGHT_def WIDTH_def)
  moreover from i j have "cell_at s (int i, int j) = Some a" by (simp add: cell_at_def)
  ultimately show ?thesis by blast
qed

lemma alive_aliens_set:
  "set (alive_aliens s) = {a. (\<exists>row \<in> set (board s). Some a \<in> set row) \<and> \<not> squished (heap s a)}"
  by (auto simp: alive_aliens_def split: option.splits if_splits)

lemma cell_on_grid:
  assumes "shape s" "inRange s c" "cell_at s c = Some a"
  shows "\<exists>row \<in> set (board s). Some a \<in> set row"
proof -
  from shape_index [OF assms(1,2)] have "board s ! nat (fst c) \<in> set (board s)"
    "board s ! nat (fst c) ! nat (snd c) \<in> set (board s ! nat (fst c))" by simp_all
  with assms(3) show ?thesis unfolding cell_at_def by metis
qed

lemma nuke_board_clears:
  assumes "shape s" "synced s"
  shows "\<exists>s'. nuke_board s = Inr s' \<and> only_deaths s s' \<and> (\<forall>c. inRange s c \<longrightarrow> cell_at s' c = None)"
  using for_each_kill_at [OF assms, of "scan_cells s"]
  by (simp add: nuke_board_def scan_cells_set)

lemma cleared_dead:
  assumes "only_deaths s s'" "inRange s c" "cell_at s c = Some a" "cell_at s' c = None"
  shows "squished (heap s' a)"
  using only_deathsD(9) [OF assms(1,2)] assms(3,4) by auto

lemma cells_of_nonempty:
  assumes "cells_of s a \<noteq> []"
  shows "\<exists>row \<in> set (board s). Some a \<in> set row"
proof -
  from assms obtain i j where "i < length (board s)" "j < length (board s ! i)"
    "board s ! i ! j = Some a"
    by (auto simp: cells_of_def split: if_splits)
  thus ?thesis by (metis nth_mem)
qed

subsection \<open>Hits\<close>

lemma affected_cells_inRange:
  "shape s \<Longrightarrow> d \<in> set (affected_cells c) \<Longrightarrow> inRange s d"
  by (auto simp: affected_cells_def inRange_def shape_def split: if_splits)

lemma trigger_bomb_only_deaths:
  assumes "shape s" "synced s"
  shows "\<exists>s'. trigger_bomb s c = Inr s' \<and> only_deaths s s'"
  using for_each_kill_at [OF assms, of "affected_cells c"] affected_cells_inRange [OF assms(1)]
  by (auto simp: trigger_bomb_def)

text \<open>Facts about the target of a hit that deaths elsewhere do not undo.\<close>

lemma only_deaths_keeps_hit:
  assumes od: "only_deaths s s'" and r: "inRange s c"
  shows "strength (heap s' a) = strength (heap s a)"
    "squished (heap s a) \<Longrightarrow> squished (heap s' a)"
    "cell_at s c = None \<Longrightarrow> cell_at s' c = None"
proof -
  have "heap s' a = (heap s a)\<lparr>squished := squished (heap s' a)\<rparr>" by (rule only_deathsD(7) [OF od])
  hence "strength (heap s' a) = strength ((heap s a)\<lparr>squished := squished (heap s' a)\<rparr>)" by simp
  thus "strength (heap s' a) = strength (heap s a)" by simp
  show "squished (heap s a) \<Longrightarrow> squished (heap s' a)" by (rule only_deathsD(8) [OF od])
  show "cell_at s c = None \<Longrightarrow> cell_at s' c = None" using only_deathsD(9) [OF od r] by auto
qed

lemma player_update_keeps:
  "shape (s\<lparr>the_player := q\<rparr>) = shape s" "synced (s\<lparr>the_player := q\<rparr>) = synced s"
  "inRange (s\<lparr>the_player := q\<rparr>) c = inRange s c" "cell_at (s\<lparr>the_player := q\<rparr>) c = cell_at s c"
  by (simp_all add: shape_def rect_def synced_def inRange_def cell_at_def scan_cells_def
        cong: option.case_cong)

lemma doPop_hit:
  assumes s: "shape s" and y: "synced s" and r: "inRange s c" and a: "cell_at s c = Some a"
  shows "\<exists>s1. doPop s a k = Inr s1 \<and> shape s1 \<and> synced s1 \<and> the_player s1 = the_player s \<and>
           height s1 = height s \<and> width s1 = width s \<and>
           strength (heap s1 a) = strength (heap s a) - k \<and>
           (strength (heap s a) - k < 1 \<longrightarrow> squished (heap s1 a) \<and> cell_at s1 c = None)"
proof -
  let ?s0 = "s\<lparr>heap := (heap s)(a := (heap s a)\<lparr>strength := strength (heap s a) - k\<rparr>)\<rparr>"
  have s0: "shape ?s0" using s by (simp add: shape_def rect_def)
  have r0: "inRange ?s0 c" using r by (simp add: inRange_def)
  have a0: "cell_at ?s0 c = Some a" using a by (simp add: cell_at_def)
  have y0: "synced ?s0"
  proof (rule syncedI)
    fix e b assume "inRange ?s0 e" "cell_at ?s0 e = Some b"
    hence "inRange s e" "cell_at s e = Some b" by (simp_all add: inRange_def cell_at_def)
    hence "coords (heap s b) = e" using y by (simp add: syncedD)
    thus "coords (heap ?s0 b) = e" by auto
  qed
  show ?thesis
  proof (cases "strength (heap s a) - k < 1")
    case False
    with s0 y0 show ?thesis by (simp add: doPop_def Let_def)
  next
    case True
    have co: "coords (heap ?s0 a) = c" using y0 r0 a0 by (rule syncedD)
    hence "doDeath ?s0 a = Inr (dead ?s0 a)" using s0 r0 by (simp add: doDeath_dead)
    moreover note od = dead_only_deaths [OF s0 y0 r0 a0]
    moreover have "squished (heap (dead ?s0 a) a)" by (simp add: dead_def)
    moreover have "strength (heap (dead ?s0 a) a) = strength (heap s a) - k" by (simp add: dead_def)
    ultimately show ?thesis using True only_deathsD(1-6) [OF od(1)]
      by (simp add: doPop_def Let_def)
  qed
qed

lemma squish_occupied:
  assumes "inRange s c" "getAlien s c = Inr (Some a)" "doPop s a k = Inr s1"
    "the_player s1 = Some p"
  shows "squish s c k =
    (if min k (strength (heap s a)) > 0
     then if consecutive_hits p + 1 \<ge> 5
          then and_then (trigger_bomb (s1\<lparr>the_player := Some (p\<lparr>consecutive_hits := consecutive_hits p + 1\<rparr>)\<rparr>) c)
                 (\<lambda>s3. case the_player s3 of
                     None \<Rightarrow> Inl AttributeError
                   | Some p3 \<Rightarrow> Inr (s3\<lparr>the_player := Some (p3\<lparr>consecutive_hits := 0\<rparr>)\<rparr>,
                                    min k (strength (heap s a))))
          else Inr (s1\<lparr>the_player := Some (p\<lparr>consecutive_hits := consecutive_hits p + 1\<rparr>)\<rparr>,
                    min k (strength (heap s a)))
     else Inr (s1\<lparr>the_player := Some (p\<lparr>consecutive_hits := 0\<rparr>)\<rparr>, min k (strength (heap s a))))"
proof (cases "strength (heap s a) > k")
  case True
  hence "min k (strength (heap s a)) = k" by simp
  with True assms show ?thesis
    by (simp add: squish_def isEmpty_def Let_def inRange_def cong: option.case_cong
          del: min_less_iff_conj)
next
  case False
  hence "min k (strength (heap s a)) = strength (heap s a)" by simp
  with False assms show ?thesis
    by (simp add: squish_def isEmpty_def Let_def inRange_def cong: option.case_cong
          del: min_less_iff_conj)
qed

subsection \<open>The loop of the collector\<close>

lemma gc_loop_step:
  "gc_loop h stk = (case gc_step h stk of Done r \<Rightarrow> Some r | Next h' stk' \<Rightarrow> gc_loop h' stk')"
  by (subst gc_loop.simps)
     (simp add: gc_step_def split: prod.splits option.splits sum.splits)

lemma gc_body_step:
  "(if stack = [] then Some (Inr h)
    else case last stack of (current_alien, parent, idx) \<Rightarrow>
      (case current_alien of
         None \<Rightarrow> Some (Inl AttributeError)
       | Some c \<Rightarrow>
           if squished (h c)
           then (case parent of
                   None \<Rightarrow> f h (butlast stack)
                 | Some p \<Rightarrow>
                     (case py_set (children (h p)) (int idx) None of
                        Inl e \<Rightarrow> Some (Inl e)
                      | Inr cs \<Rightarrow> f (h(p := (h p)\<lparr>children := cs\<rparr>)) (butlast stack)))
           else f h (butlast stack @
                  map (\<lambda>(i, child). (child, Some c, i)) (enumerate 0 (children (h c)))))) =
   (case gc_step h stack of Done r \<Rightarrow> Some r | Next h' stk' \<Rightarrow> f h' stk')"
  by (simp add: gc_step_def split: prod.splits option.splits sum.splits)

lemma gc_loop_invariant:
  assumes run: "gc_loop h stk = Some res" and init: "I h stk"
    and step: "\<And>h stk h' stk'. I h stk \<Longrightarrow> gc_step h stk = Next h' stk' \<Longrightarrow> I h' stk'"
  shows "\<exists>h1 stk1. I h1 stk1 \<and> gc_step h1 stk1 = Done res"
proof -
  have "I h stk \<longrightarrow> (\<exists>h1 stk1. I h1 stk1 \<and> gc_step h1 stk1 = Done res)"
    using run
  proof (induction rule: gc_loop.raw_induct)
    case (1 loop h stack res)
    have body: "(case gc_step h stack of Done r \<Rightarrow> Some r | Next h' stk' \<Rightarrow> loop h' stk') = Some res"
      using 1(2) unfolding gc_body_step .
    show ?case
    proof (cases "gc_step h stack")
      case (Done r)
      with body show ?thesis by auto
    next
      case (Next h' stk')
      with body have "loop h' stk' = Some res" by simp
      moreover from Next 1(3) have "gc_loop h' stk' = Some res"
        by (subst (asm) gc_loop_step) simp
      ultimately have "I h' stk' \<longrightarrow> (\<exists>h1 stk1. I h1 stk1 \<and> gc_step h1 stk1 = Done res)"
        by (rule 1(1))
      moreover have "I h stack \<Longrightarrow> I h' stk'" by (rule step [OF _ Next])
      ultimately show ?thesis by auto
    qed
  qed fact
  with init show ?thesis by blast
qed

lemma gc_loop_terminates:
  assumes wf: "wf R" and init: "I h stk"
    and step: "\<And>h stk h' stk'. I h stk \<Longrightarrow> gc_step h stk = Next h' stk' \<Longrightarrow>
                 I h' stk' \<and> ((h', stk'), (h, stk)) \<in> R"
  shows "\<exists>res. gc_loop h stk = Some res"
proof -
  have "I (fst x) (snd x) \<longrightarrow> (\<exists>res. gc_loop (fst x) (snd x) = Some res)" for x
    using wf
  proof (induction x rule: wf_induct_rule)
    case (less x)
    show ?case
    proof
      assume i: "I (fst x) (snd x)"
      show "\<exists>res. gc_loop (fst x) (snd x) = Some res"
      proof (cases "gc_step (fst x) (snd x)")
        case (Done r)
        thus ?thesis by (subst gc_loop_step) simp
      next
        case (Next h' stk')
        from step [OF i Next] less [of "(h', stk')"] have "\<exists>res. gc_loop h' stk' = Some res"
          by simp
        with Next show ?thesis by (subst gc_loop_step) simp
      qed
    qed
  qed
  from this [of "(h, stk)"] init show ?thesis by simp
qed

lemma same_but_children_refl: "same_but_children h h"
  by (simp add: same_but_children_def)

lemma same_but_children_upd:
  assumes "same_but_children h h1"
  shows "same_but_children h (h1(p := (h1 p)\<lparr>children := cs\<rparr>))"
proof -
  from assms have "h1 p = (h p)\<lparr>children := children (h1 p)\<rparr>"
    by (simp add: same_but_children_def)
  hence "(h1 p)\<lparr>children := cs\<rparr> = ((h p)\<lparr>children := children (h1 p)\<rparr>)\<lparr>children := cs\<rparr>"
    by (rule arg_cong)
  hence "(h1 p)\<lparr>children := cs\<rparr> = (h p)\<lparr>children := cs\<rparr>" by simp
  with assms show ?thesis by (simp add: same_but_children_def)
qed

lemma gc_step_same:
  "same_but_children h h1 \<Longrightarrow> gc_step h1 stk = Next h' stk' \<Longrightarrow> same_but_children h h'"
  by (auto simp: gc_step_def same_but_children_upd
      split: if_splits prod.splits option.splits sum.splits)

lemma gc_loop_same:
  assumes "gc_loop h stk = Some (Inr h')"
  shows "same_but_children h h'"
proof -
  have "\<exists>h1 stk1. same_but_children h h1 \<and> gc_step h1 stk1 = Done (Inr h')"
  proof (rule gc_loop_invariant [where I = "\<lambda>h1 stk1. same_but_children h h1"])
    show "gc_loop h stk = Some (Inr h')" by fact
    show "same_but_children h h" by (rule same_but_children_refl)
    show "\<And>h1 stk h' stk'. same_but_children h h1 \<Longrightarrow> gc_step h1 stk = Next h' stk' \<Longrightarrow>
            same_but_children h h'" by (rule gc_step_same)
  qed
  thus ?thesis
    by (auto simp: gc_step_def split: if_splits prod.splits option.splits sum.splits)
qed

subsection \<open>Strengths and dead flags under the operations\<close>

lemma same_life_refl: "same_life s s"
  by (simp add: same_life_def)

lemma same_life_trans: "same_life s s1 \<Longrightarrow> same_life s1 s2 \<Longrightarrow> same_life s s2"
  by (simp add: same_life_def)

lemma life_ok_refl: "life_ok s s"
  by (simp add: life_ok_def grows_def)

lemma grows_trans: "grows s s1 \<Longrightarrow> grows s1 s2 \<Longrightarrow> grows s s2"
  unfolding grows_def by (meson le_trans less_le_trans)

lemma life_ok_trans:
  assumes "life_ok s s1" "life_ok s1 s2"
  shows "life_ok s s2"
proof -
  from assms have "grows s s1" "grows s1 s2" by (simp_all add: life_ok_def)
  hence "grows s s2" by (rule grows_trans)
  moreover from assms have "low_dead s \<longrightarrow> low_dead s2" by (simp add: life_ok_def)
  ultimately show ?thesis by (simp add: life_ok_def)
qed

lemma same_life_ok: "same_life s s' \<Longrightarrow> life_ok s s'"
  by (simp add: same_life_def life_ok_def grows_def low_dead_def)

lemma set_cell_heap:
  "set_cell s c v = Inr s' \<Longrightarrow> heap s' = heap s \<and> next_ref s' = next_ref s"
  by (auto simp: set_cell_def and_then_eq_Inr)

lemma set_cell_same: "set_cell s c v = Inr s' \<Longrightarrow> same_life s s'"
  by (drule set_cell_heap) (simp add: same_life_def)

lemma moveAlien_same: "moveAlien s old new = Inr s' \<Longrightarrow> same_life s s'"
  by (auto simp: moveAlien_def clearCell_def and_then_eq_Inr same_life_def
      dest!: set_cell_heap split: if_splits option.splits)

lemma coords_upd_same:
  "same_life s (s\<lparr>heap := (heap s)(a := (heap s a)\<lparr>coords := c\<rparr>)\<rparr>)"
  by (simp add: same_life_def)

lemma doTravel_same:
  assumes "doTravel s a g = Inr (s', g')"
  shows "same_life s s'"
proof -
  obtain distx g1 where 1: "randint (- 1) 1 g = (distx, g1)" by (cases "randint (- 1) 1 g")
  obtain disty g2 where 2: "randint (- 1) 1 g1 = (disty, g2)" by (cases "randint (- 1) 1 g1")
  let ?new = "(xpos (heap s a) + distx, ypos (heap s a) + disty)"
  show ?thesis
  proof (cases "inRange s ?new")
    case False
    with assms 1 2 show ?thesis by (simp add: doTravel_def same_life_refl)
  next
    case True
    with assms 1 2 obtain s1 where m: "moveAlien s (coords (heap s a)) ?new = Inr s1"
      and e: "s' = s1\<lparr>heap := (heap s1)(a := (heap s1 a)\<lparr>coords := ?new\<rparr>)\<rparr>"
      by (auto simp: doTravel_def Let_def and_then_eq_Inr)
    from m have "same_life s s1" by (rule moveAlien_same)
    moreover have "same_life s1 s'" unfolding e by (rule coords_upd_same)
    ultimately show ?thesis by (rule same_life_trans)
  qed
qed

lemma doDeath_ok: "doDeath s a = Inr s' \<Longrightarrow> life_ok s s'"
  by (auto simp: doDeath_def clearCell_def Let_def life_ok_def grows_def low_dead_def
      dest!: set_cell_heap)

lemma doPop_ok: "doPop s a k = Inr s' \<Longrightarrow> life_ok s s'"
  by (auto simp: doPop_def doDeath_def clearCell_def Let_def life_ok_def grows_def low_dead_def
      dest!: set_cell_heap split: if_splits)

lemma kill_at_ok: "kill_at c s = Inr s' \<Longrightarrow> life_ok s s'"
  by (auto simp: kill_at_def and_then_eq_Inr life_ok_refl dest: doDeath_ok split: option.splits)

lemma for_each_rel:
  assumes step: "\<And>v s s'. f v s = Inr s' \<Longrightarrow> R s s'"
    and refl: "\<And>s. R s s" and trans: "\<And>s s1 s2. R s s1 \<Longrightarrow> R s1 s2 \<Longrightarrow> R s s2"
  shows "for_each vs f s = Inr s' \<Longrightarrow> R s s'"
proof (induction vs arbitrary: s)
  case Nil
  then show ?case by (simp add: refl)
next
  case (Cons v vs)
  then obtain s1 where "f v s = Inr s1" "for_each vs f s1 = Inr s'"
    by (auto simp: and_then_eq_Inr)
  with Cons.IH step trans show ?case by blast
qed

lemma trigger_bomb_ok: "trigger_bomb s c = Inr s' \<Longrightarrow> life_ok s s'"
  unfolding trigger_bomb_def
  by (rule for_each_rel [where f = kill_at]) (auto intro: kill_at_ok life_ok_refl life_ok_trans)

lemma nuke_board_ok: "nuke_board s = Inr s' \<Longrightarrow> life_ok s s'"
  unfolding nuke_board_def
  by (rule for_each_rel [where f = kill_at]) (auto intro: kill_at_ok life_ok_refl life_ok_trans)

lemma player_same: "same_life s (s\<lparr>the_player := q\<rparr>)"
  by (simp add: same_life_def)

lemma life_ok_player: "life_ok s s' \<Longrightarrow> life_ok s (s'\<lparr>the_player := q\<rparr>)"
  by (blast intro: life_ok_trans same_life_ok player_same)

lemma squish_ok:
  assumes "squish s c k = Inr (s', sc)"
  shows "life_ok s s'"
proof (cases "inRange s c")
  case False
  with assms show ?thesis by (simp add: squish_def inRange_def life_ok_refl)
next
  case r: True
  hence b: "0 \<le> fst c \<and> fst c < width s \<and> 0 \<le> snd c \<and> snd c < height s"
    by (simp add: inRange_def)
  with assms obtain e where e: "isEmpty s c = Inr e"
    unfolding squish_def by (cases "isEmpty s c") simp_all
  then obtain al where al: "getAlien s c = Inr al" "e = (al = None)"
    by (auto simp: isEmpty_def and_then_eq_Inr)
  show ?thesis
  proof (cases al)
    case None
    with assms b e al show ?thesis by (simp add: squish_def life_ok_refl)
  next
    case (Some a)
    with assms b e al obtain s1 where s1: "doPop s a k = Inr s1"
      unfolding squish_def Let_def by (cases "doPop s a k") simp_all
    from s1 have l1: "life_ok s s1" by (rule doPop_ok)
    from assms b e al Some s1 obtain p where p: "the_player s1 = Some p"
      unfolding squish_def Let_def by (cases "the_player s1") simp_all
    define v where "v = min k (strength (heap s a))"
    let ?s2 = "s1\<lparr>the_player := Some (p\<lparr>consecutive_hits := consecutive_hits p + 1\<rparr>)\<rparr>"
    have l2: "life_ok s ?s2" using l1 by (rule life_ok_player)
    note sq = squish_occupied [OF r al(1) [unfolded Some] s1 p, folded v_def]
    show ?thesis
    proof (cases "v > 0")
      case False
      with assms sq have "s' = s1\<lparr>the_player := Some (p\<lparr>consecutive_hits := 0\<rparr>)\<rparr>" by simp
      with l1 show ?thesis by (simp add: life_ok_player)
    next
      case True
      show ?thesis
      proof (cases "consecutive_hits p + 1 \<ge> 5")
        case False
        with True assms sq have "s' = ?s2" by simp
        with l2 show ?thesis by simp
      next
        case big: True
        with True assms sq obtain s3 where 3: "trigger_bomb ?s2 c = Inr s3"
          by (cases "trigger_bomb ?s2 c") simp_all
        with True big assms sq obtain q where "s' = s3\<lparr>the_player := q\<rparr>"
          by (cases "the_player s3") auto
        moreover from 3 have "life_ok ?s2 s3" by (rule trigger_bomb_ok)
        ultimately show ?thesis using l2 by (blast intro: life_ok_trans life_ok_player)
      qed
    qed
  qed
qed

lemma nuke_check_ok: "nuke_check s = Inr (s', won) \<Longrightarrow> life_ok s s'"
  by (auto simp: nuke_check_def Let_def and_then_eq_Inr life_ok_refl
      dest!: nuke_board_ok split: if_splits option.splits)

lemma Player_doTimestep_ok:
  assumes "Player_doTimestep s = Inr s'"
  shows "life_ok s s'"
proof -
  from assms obtain q where "s' = s\<lparr>the_player := q\<rparr>"
    by (auto simp: Player_doTimestep_def split: option.splits)
  thus ?thesis by (simp add: same_life_ok player_same)
qed

lemma Alien_init_ok: "1 \<le> k \<Longrightarrow> Alien_init s c k = Inr (s', a) \<Longrightarrow> life_ok s s'"
  by (auto simp: Alien_init_def addAlien_def Let_def and_then_eq_Inr life_ok_def grows_def
      low_dead_def less_Suc_eq dest!: set_cell_heap)

lemma place_root_ok: "1 \<le> k \<Longrightarrow> place_root s aliens c k = Inr (s', aliens') \<Longrightarrow> life_ok s s'"
  by (auto simp: place_root_def and_then_eq_Inr life_ok_refl dest: Alien_init_ok
      split: if_splits)

lemma children_upd_same:
  "same_life s (s\<lparr>heap := (heap s)(a := (heap s a)\<lparr>children := cs\<rparr>)\<rparr>)"
  by (simp add: same_life_def)

lemma doSpawn_ok:
  assumes "doSpawn s a g = Inr (s', g')"
  shows "life_ok s s'"
proof -
  from assms obtain emptySpace g1 neighbor g2 where
    1: "findEmptySpace s a g = Inr (emptySpace, g1)" "getNeighbor s a g1 = Inr (neighbor, g2)"
    by (auto simp: doSpawn_def and_then_eq_Inr)
  obtain chance g3 where 3: "randint 0 9 g2 = (chance, g3)" by (cases "randint 0 9 g2")
  show ?thesis
  proof (cases "emptySpace \<noteq> None \<and> neighbor \<noteq> None \<and> chance > 6")
    case False
    with assms 1 3 have "s' = s" by (auto simp: doSpawn_def split: option.splits)
    thus ?thesis by (simp add: life_ok_refl)
  next
    case True
    then obtain place where pl: "emptySpace = Some place" by auto
    with assms 1 3 True obtain s1 child where
      c: "Alien_init s place (max 1 (strength (heap s a) - 1)) = Inr (s1, child)"
      "s' = s1\<lparr>heap := (heap s1)(a := (heap s1 a)\<lparr>children := children (heap s1 a) @ [Some child]\<rparr>)\<rparr>"
      by (auto simp: doSpawn_def and_then_eq_Inr)
    have "life_ok s s1" by (rule Alien_init_ok [OF _ c(1)]) simp
    moreover have "life_ok s1 s'" unfolding c(2) by (rule same_life_ok, rule children_upd_same)
    ultimately show ?thesis by (rule life_ok_trans)
  qed
qed

lemma doGrow_ok: "doGrow s a g = (s', g') \<Longrightarrow> life_ok s s'"
  by (auto simp: doGrow_def Let_def life_ok_def grows_def low_dead_def
      split: if_splits prod.splits)

lemma Alien_doTimestep_ok:
  assumes "Alien_doTimestep s a g = Inr (s', g')"
  shows "life_ok s s'"
proof -
  from assms obtain s1 g1 s2 g2 where
    "doTravel s a g = Inr (s1, g1)" "doSpawn s1 a g1 = Inr (s2, g2)" "doGrow s2 a g2 = (s', g')"
    by (auto simp: Alien_doTimestep_def and_then_eq_Inr)
  hence "life_ok s s1" "life_ok s1 s2" "life_ok s2 s'"
    by (simp_all add: doTravel_same same_life_ok doSpawn_ok doGrow_ok)
  thus ?thesis by (blast intro: life_ok_trans)
qed

lemma step_at_ok:
  assumes "step_at c sg = Inr sg'"
  shows "life_ok (fst sg) (fst sg')"
proof -
  from assms obtain al where al: "getAlien (fst sg) c = Inr al"
    by (auto simp: step_at_def and_then_eq_Inr)
  show ?thesis
  proof (cases "\<exists>a. al = Some a \<and> \<not> squished (heap (fst sg) a)")
    case False
    with assms al have "sg' = sg" by (auto simp: step_at_def split: option.splits if_splits)
    thus ?thesis by (simp add: life_ok_refl)
  next
    case True
    then obtain a where "al = Some a" "\<not> squished (heap (fst sg) a)" by blast
    with assms al have "Alien_doTimestep (fst sg) a (snd sg) = Inr (fst sg', snd sg')"
      by (simp add: step_at_def)
    thus ?thesis by (rule Alien_doTimestep_ok)
  qed
qed

lemma Board_doTimestep_ok: "Board_doTimestep s g = Inr (s', g') \<Longrightarrow> life_ok s s'"
proof -
  assume "Board_doTimestep s g = Inr (s', g')"
  hence "for_each (scan_cells s) step_at (s, g) = Inr (s', g')" by (simp add: Board_doTimestep_def)
  hence "life_ok (fst (s, g)) (fst (s', g'))"
    by (rule for_each_rel [where f = step_at and R = "\<lambda>x y. life_ok (fst x) (fst y)", rotated 3])
       (auto intro: step_at_ok life_ok_refl life_ok_trans)
  thus ?thesis by simp
qed

lemma gc_root_same:
  assumes "gc_root h r = Some (Inr h')"
  shows "same_but_children h h'"
proof (cases "squished (h r)")
  case True
  with assms show ?thesis by (simp add: gc_root_def same_but_children_refl)
next
  case False
  with assms obtain h1 where 1: "gc_loop h [(Some r, None, 0)] = Some (Inr h1)"
    and e: "h' = (if \<not> squished (h1 r)
                 then h1(r := (h1 r)\<lparr>children := filter (\<lambda>child. child \<noteq> None) (children (h1 r))\<rparr>)
                 else h1)"
    by (auto simp: gc_root_def split: option.splits sum.splits)
  from 1 have "same_but_children h h1" by (rule gc_loop_same)
  thus ?thesis unfolding e by (simp add: same_but_children_upd)
qed

lemma same_but_children_trans:
  "same_but_children h h1 \<Longrightarrow> same_but_children h1 h2 \<Longrightarrow> same_but_children h h2"
  unfolding same_but_children_def
proof
  fix b assume 1: "\<forall>b. h1 b = (h b)\<lparr>children := children (h1 b)\<rparr>"
    and 2: "\<forall>b. h2 b = (h1 b)\<lparr>children := children (h2 b)\<rparr>"
  from 2 have "h2 b = (h1 b)\<lparr>children := children (h2 b)\<rparr>" ..
  also from 1 have "h1 b = (h b)\<lparr>children := children (h1 b)\<rparr>" ..
  finally show "h2 b = (h b)\<lparr>children := children (h2 b)\<rparr>" by simp
qed

lemma gc_roots_same:
  "gc_roots rs h = Some (Inr h') \<Longrightarrow> same_but_children h h'"
proof (induction rs arbitrary: h)
  case Nil
  then show ?case by (simp add: same_but_children_refl)
next
  case (Cons r rs)
  then obtain h1 where "gc_root h r = Some (Inr h1)" "gc_roots rs h1 = Some (Inr h')"
    by (auto split: option.splits sum.splits)
  with Cons.IH show ?case by (blast intro: same_but_children_trans dest: gc_root_same)
qed

lemma same_but_children_fields:
  assumes "same_but_children h h'"
  shows "squished (h' b) = squished (h b)" "strength (h' b) = strength (h b)"
    "coords (h' b) = coords (h b)"
proof -
  from assms have e: "h' b = (h b)\<lparr>children := children (h' b)\<rparr>"
    by (simp add: same_but_children_def)
  show "squished (h' b) = squished (h b)" by (subst e) simp
  show "strength (h' b) = strength (h b)" by (subst e) simp
  show "coords (h' b) = coords (h b)" by (subst e) simp
qed

lemma garbage_collect_same:
  "garbage_collect s aliens = Some (Inr (s', aliens')) \<Longrightarrow> same_life s s'"
  by (auto simp: garbage_collect_def same_life_def same_but_children_fields
      dest!: gc_roots_same split: option.splits sum.splits)

lemma exec_ok:
  assumes "exec x (s, aliens) = Some (Inr (s', aliens'))" and "\<forall>c k. x = Place c k \<longrightarrow> 1 \<le> k"
  shows "life_ok s s'"
  using assms
  by (cases x)
     (auto simp: and_then_eq_Inr
       dest: place_root_ok squish_ok trigger_bomb_ok Board_doTimestep_ok Player_doTimestep_ok
         nuke_check_ok garbage_collect_same [THEN same_life_ok])

lemma run_ok:
  "run xs (s, aliens) = Some (Inr (s', aliens')) \<Longrightarrow> \<forall>c k. Place c k \<in> set xs \<longrightarrow> 1 \<le> k \<Longrightarrow>
   life_ok s s'"
proof (induction xs arbitrary: s aliens)
  case Nil
  then show ?case by (simp add: life_ok_refl)
next
  case (Cons x xs)
  from Cons.prems(1) obtain s1 aliens1 where
    1: "exec x (s, aliens) = Some (Inr (s1, aliens1))" "run xs (s1, aliens1) = Some (Inr (s', aliens'))"
    by (auto split: option.splits sum.splits)
  from 1(1) Cons.prems(2) have "life_ok s s1" by (auto intro: exec_ok)
  moreover from 1(2) Cons.prems(2) have "life_ok s1 s'" by (auto intro: Cons.IH)
  ultimately show ?case by (rule life_ok_trans)
qed

subsection \<open>The collector on a forest\<close>

lemma forest_child:
  assumes "forest N h rs" "p < N" "c \<in> set (children (h p))"
  shows "\<exists>k. c = Some k \<and> p < k \<and> k < N"
proof -
  from assms(2) have "p \<in> set [0..<N]" by simp
  with assms(1,3) have "case c of None \<Rightarrow> False | Some k \<Rightarrow> p < k \<and> k < N"
    unfolding forest_def by blast
  thus ?thesis by (cases c) simp_all
qed

lemma forest_distinct: "forest N h rs \<Longrightarrow> p < N \<Longrightarrow> distinct (children (h p))"
  unfolding forest_def by simp

lemma forest_parent:
  assumes "forest N h rs" "p < N" "q < N" "c \<in> set (children (h p))" "c \<in> set (children (h q))"
  shows "p = q"
proof -
  from assms(2,3) have "p \<in> set [0..<N]" "q \<in> set [0..<N]" by simp_all
  with assms(1,4,5) show ?thesis unfolding forest_def by blast
qed

lemma forest_roots:
  assumes "forest N h rs"
  shows "distinct rs" "r \<in> set rs \<Longrightarrow> r < N"
    "r \<in> set rs \<Longrightarrow> p < N \<Longrightarrow> Some r \<notin> set (children (h p))"
proof -
  from assms show "distinct rs" "r \<in> set rs \<Longrightarrow> r < N" unfolding forest_def by blast+
  assume "r \<in> set rs" "p < N"
  moreover from this have "p \<in> set [0..<N]" by simp
  ultimately show "Some r \<notin> set (children (h p))" using assms unfolding forest_def by blast
qed

lemma gc_step_Nil: "gc_step h [] = Done (Inr h)"
  by (simp add: gc_step_def)

lemma gc_step_snoc:
  "gc_step h (bl @ [(c, p, i)]) =
     (case c of
        None \<Rightarrow> Done (Inl AttributeError)
      | Some k \<Rightarrow>
          if squished (h k)
          then (case p of
                  None \<Rightarrow> Next h bl
                | Some q \<Rightarrow>
                    (case py_set (children (h q)) (int i) None of
                       Inl e \<Rightarrow> Done (Inl e)
                     | Inr cs \<Rightarrow> Next (h(q := (h q)\<lparr>children := cs\<rparr>)) bl))
          else Next h (bl @ map (\<lambda>(i, child). (child, Some k, i)) (enumerate 0 (children (h k)))))"
  by (simp add: gc_step_def split: option.splits sum.splits)

lemma frames_set:
  "f \<in> set (map (\<lambda>(i, child). (child, Some c, i)) (enumerate 0 xs)) \<longleftrightarrow>
   (\<exists>i < length xs. f = (xs ! i, Some c, i))"
  by (auto simp: in_set_enumerate_eq image_iff split: prod.splits)

lemma frames_fst: "map fst (map (\<lambda>(i, child). (child, Some c, i)) (enumerate 0 xs)) = xs"
  by (rule nth_equalityI) (simp_all add: nth_enumerate_eq)

lemma wf_gc_less: "wf (gc_less N)"
  unfolding gc_less_def by (intro wf_inv_image wf_mult wf_less_than)

lemma gc_less_pop: "((h', bl), (h, bl @ [f])) \<in> gc_less N"
  using one_step_implies_mult [of "{#wt N f#}" "{#}" less_than "mset (map (wt N) bl)"]
  by (simp add: gc_less_def)

lemma gc_less_push:
  assumes "\<forall>g \<in> set fs. wt N g < wt N f"
  shows "((h', bl @ fs), (h, bl @ [f])) \<in> gc_less N"
proof -
  have "\<forall>k \<in># mset (map (wt N) fs). \<exists>j \<in># {#wt N f#}. (k, j) \<in> less_than"
    using assms by auto
  from one_step_implies_mult [OF _ this, of "mset (map (wt N) bl)"]
  show ?thesis by (simp add: gc_less_def)
qed

lemma set_update_None:
  assumes "Some k \<in> set xs" "xs ! i \<noteq> Some k"
  shows "Some k \<in> set (xs[i := None])"
proof -
  from assms(1) obtain j where j: "j < length xs" "xs ! j = Some k"
    by (auto simp: in_set_conv_nth)
  with assms(2) have "j \<noteq> i" by auto
  with j have "xs[i := None] ! j = Some k" "j < length (xs[i := None])" by simp_all
  thus ?thesis by (metis nth_mem)
qed

lemma set_update_None_sub: "Some k \<in> set (xs[i := None]) \<Longrightarrow> Some k \<in> set xs"
  using set_update_subset_insert [of xs i None] by auto

lemma gc_heap_invD:
  assumes "gc_heap_inv N h0 R D V h"
  shows "D \<subseteq> R" "same_but_children h0 h"
    "b \<notin> V \<Longrightarrow> children (h b) = children (h0 b)"
    "Some k \<in> set (children (h b)) \<Longrightarrow> Some k \<in> set (children (h0 b))"
    "Some k \<in> set (children (h0 b)) \<Longrightarrow> \<not> squished (h0 k) \<Longrightarrow> Some k \<in> set (children (h b))"
    "v \<in> V \<Longrightarrow> v < N" "v \<in> V \<Longrightarrow> \<not> squished (h0 v)"
    "v \<in> V \<Longrightarrow> v \<in> D \<or> (\<exists>p \<in> V. Some v \<in> set (children (h0 p)))"
  using assms unfolding gc_heap_inv_def by blast+

lemma gc_heap_invI:
  assumes "D \<subseteq> R" "same_but_children h0 h"
    "\<And>b. b \<notin> V \<Longrightarrow> children (h b) = children (h0 b)"
    "\<And>b k. Some k \<in> set (children (h b)) \<Longrightarrow> Some k \<in> set (children (h0 b))"
    "\<And>b k. Some k \<in> set (children (h0 b)) \<Longrightarrow> \<not> squished (h0 k) \<Longrightarrow> Some k \<in> set (children (h b))"
    "\<And>v. v \<in> V \<Longrightarrow> v < N \<and> \<not> squished (h0 v) \<and>
            (v \<in> D \<or> (\<exists>p \<in> V. Some v \<in> set (children (h0 p))))"
  shows "gc_heap_inv N h0 R D V h"
  using assms unfolding gc_heap_inv_def by blast

lemma gc_frames_invD:
  assumes "gc_frames_inv N h0 D V h stk"
  shows "(c, p, i) \<in> set stk \<Longrightarrow> \<exists>k. c = Some k \<and> k < N \<and> k \<notin> V"
    "(c, None, i) \<in> set stk \<Longrightarrow> \<exists>k. c = Some k \<and> k \<in> D"
    "(c, Some q, i) \<in> set stk \<Longrightarrow> q \<in> V \<and> i < length (children (h q)) \<and> children (h q) ! i = c"
    "distinct (map fst stk)"
    "q \<in> V \<Longrightarrow> i < length (children (h q)) \<Longrightarrow> children (h q) ! i = Some k \<Longrightarrow>
       k \<in> V \<or> (Some k, Some q, i) \<in> set stk"
    "r \<in> D \<Longrightarrow> \<not> squished (h0 r) \<Longrightarrow> r \<in> V \<or> (\<exists>i. (Some r, None, i) \<in> set stk)"
proof -
  note a = assms [unfolded gc_frames_inv_def]
  { fix f assume "f \<in> set stk"
    with a have "\<exists>k. fst f = Some k \<and> k < N \<and> k \<notin> V \<and>
        (case fst (snd f) of
           None \<Rightarrow> k \<in> D
         | Some q \<Rightarrow> q \<in> V \<and> snd (snd f) < length (children (h q)) \<and>
                     children (h q) ! snd (snd f) = Some k)" by blast }
  note f = this
  from f [of "(c, p, i)"] show "(c, p, i) \<in> set stk \<Longrightarrow> \<exists>k. c = Some k \<and> k < N \<and> k \<notin> V"
    by auto
  from f [of "(c, None, i)"] show "(c, None, i) \<in> set stk \<Longrightarrow> \<exists>k. c = Some k \<and> k \<in> D"
    by auto
  from f [of "(c, Some q, i)"] show "(c, Some q, i) \<in> set stk \<Longrightarrow>
      q \<in> V \<and> i < length (children (h q)) \<and> children (h q) ! i = c"
    by auto
  from a show "distinct (map fst stk)" by blast
  from a show "q \<in> V \<Longrightarrow> i < length (children (h q)) \<Longrightarrow> children (h q) ! i = Some k \<Longrightarrow>
       k \<in> V \<or> (Some k, Some q, i) \<in> set stk" by blast
  from a show "r \<in> D \<Longrightarrow> \<not> squished (h0 r) \<Longrightarrow> r \<in> V \<or> (\<exists>i. (Some r, None, i) \<in> set stk)"
    by blast
qed

lemma gc_frames_invI:
  assumes "\<And>c p i. (c, p, i) \<in> set stk \<Longrightarrow> \<exists>k. c = Some k \<and> k < N \<and> k \<notin> V"
    "\<And>c i. (c, None, i) \<in> set stk \<Longrightarrow> \<exists>k. c = Some k \<and> k \<in> D"
    "\<And>c q i. (c, Some q, i) \<in> set stk \<Longrightarrow>
        q \<in> V \<and> i < length (children (h q)) \<and> children (h q) ! i = c"
    "distinct (map fst stk)"
    "\<And>q i k. q \<in> V \<Longrightarrow> i < length (children (h q)) \<Longrightarrow> children (h q) ! i = Some k \<Longrightarrow>
       k \<in> V \<or> (Some k, Some q, i) \<in> set stk"
    "\<And>r. r \<in> D \<Longrightarrow> \<not> squished (h0 r) \<Longrightarrow> r \<in> V \<or> (\<exists>i. (Some r, None, i) \<in> set stk)"
  shows "gc_frames_inv N h0 D V h stk"
  unfolding gc_frames_inv_def
proof (intro conjI ballI allI impI)
  fix f assume f: "f \<in> set stk"
  obtain c p i where e: "f = (c, p, i)" by (cases f)
  from assms(1) [of c p i] f e obtain k where k: "c = Some k" "k < N" "k \<notin> V" by blast
  show "\<exists>k. fst f = Some k \<and> k < N \<and> k \<notin> V \<and>
        (case fst (snd f) of
           None \<Rightarrow> k \<in> D
         | Some q \<Rightarrow> q \<in> V \<and> snd (snd f) < length (children (h q)) \<and>
                     children (h q) ! snd (snd f) = Some k)"
  proof (cases p)
    case None
    with assms(2) [of c i] f e k show ?thesis by auto
  next
    case (Some q)
    with assms(3) [of c q i] f e k show ?thesis by auto
  qed
qed (use assms(4-6) in blast)+

lemma distinct_snoc_fst:
  assumes "distinct (map fst (bl @ [(c, p, i)]))" "(c', p', i') \<in> set bl"
  shows "c' \<noteq> c"
proof -
  from assms(1) have "c \<notin> fst ` set bl" by simp
  with assms(2) show ?thesis by force
qed

lemma gc_pop_dead_root:
  assumes hi: "gc_heap_inv N h0 R D V h"
    and fi: "gc_frames_inv N h0 D V h (bl @ [(Some k, None, i)])"
    and sq: "squished (h k)"
  shows "gc_frames_inv N h0 D V h bl"
proof (rule gc_frames_invI)
  note fd = gc_frames_invD [OF fi]
  show "\<exists>k. c = Some k \<and> k < N \<and> k \<notin> V" if "(c, p, j) \<in> set bl" for c p j
    using fd(1) [of c p j] that by simp
  show "\<exists>k. c = Some k \<and> k \<in> D" if "(c, None, j) \<in> set bl" for c j
    using fd(2) [of c j] that by simp
  show "q \<in> V \<and> j < length (children (h q)) \<and> children (h q) ! j = c"
    if "(c, Some q, j) \<in> set bl" for c q j
    using fd(3) [of c q j] that by simp
  show "distinct (map fst bl)" using fd(4) by simp
  show "k' \<in> V \<or> (Some k', Some q, j) \<in> set bl"
    if "q \<in> V" "j < length (children (h q))" "children (h q) ! j = Some k'" for q j k'
    using fd(5) [OF that] by simp
  show "r \<in> V \<or> (\<exists>j. (Some r, None, j) \<in> set bl)" if "r \<in> D" "\<not> squished (h0 r)" for r
  proof -
    from sq gc_heap_invD(2) [OF hi] have "squished (h0 k)"
      by (simp add: same_but_children_fields)
    with that have "r \<noteq> k" by auto
    with fd(6) [OF that] show ?thesis by auto
  qed
qed

lemma gc_pop_dead_child:
  assumes hi: "gc_heap_inv N h0 R D V h"
    and fi: "gc_frames_inv N h0 D V h (bl @ [(Some k, Some q, i)])"
    and sq: "squished (h k)"
  defines "h' \<equiv> h(q := (h q)\<lparr>children := (children (h q))[i := None]\<rparr>)"
  shows "gc_heap_inv N h0 R D V h'" "gc_frames_inv N h0 D V h' bl"
proof -
  note hd = gc_heap_invD [OF hi]
  note fd = gc_frames_invD [OF fi]
  from fd(3) [of "Some k" q i] have q: "q \<in> V" "i < length (children (h q))"
    "children (h q) ! i = Some k" by simp_all
  from sq hd(2) have sq0: "squished (h0 k)" by (simp add: same_but_children_fields)
  have ch: "children (h' b) = (if b = q then (children (h q))[i := None] else children (h b))" for b
    by (simp add: h'_def)
  show "gc_heap_inv N h0 R D V h'"
  proof (rule gc_heap_invI)
    show "D \<subseteq> R" by (rule hd(1))
    show "same_but_children h0 h'" unfolding h'_def using hd(2) by (rule same_but_children_upd)
    show "children (h' b) = children (h0 b)" if "b \<notin> V" for b
      using that q(1) hd(3) [of b] by (auto simp: ch)
    show "Some k' \<in> set (children (h0 b))" if "Some k' \<in> set (children (h' b))" for b k'
      using that hd(4) [of k' b] by (auto simp: ch dest: set_update_None_sub split: if_splits)
    show "Some k' \<in> set (children (h' b))"
      if "Some k' \<in> set (children (h0 b))" "\<not> squished (h0 k')" for b k'
    proof -
      from that have 1: "Some k' \<in> set (children (h b))" by (rule hd(5))
      from that(2) sq0 have "k' \<noteq> k" by auto
      with q(3) have "children (h q) ! i \<noteq> Some k'" by simp
      with 1 show ?thesis by (auto simp: ch intro: set_update_None)
    qed
    show "v < N \<and> \<not> squished (h0 v) \<and> (v \<in> D \<or> (\<exists>p \<in> V. Some v \<in> set (children (h0 p))))"
      if "v \<in> V" for v
      using hd(6-8) [OF that] by simp
  qed
  show "gc_frames_inv N h0 D V h' bl"
  proof (rule gc_frames_invI)
    show "\<exists>k. c = Some k \<and> k < N \<and> k \<notin> V" if "(c, p, j) \<in> set bl" for c p j
      using fd(1) [of c p j] that by simp
    show "\<exists>k. c = Some k \<and> k \<in> D" if "(c, None, j) \<in> set bl" for c j
      using fd(2) [of c j] that by simp
    show "q' \<in> V \<and> j < length (children (h' q')) \<and> children (h' q') ! j = c"
      if "(c, Some q', j) \<in> set bl" for c q' j
    proof -
      from fd(3) [of c q' j] that have 1: "q' \<in> V" "j < length (children (h q'))"
        "children (h q') ! j = c" by simp_all
      from distinct_snoc_fst [OF fd(4) that] have "c \<noteq> Some k" .
      with 1(3) q(3) have "\<not> (q' = q \<and> j = i)" by auto
      with 1 show ?thesis by (auto simp: ch)
    qed
    show "distinct (map fst bl)" using fd(4) by simp
    show "k' \<in> V \<or> (Some k', Some q', j) \<in> set bl"
      if "q' \<in> V" "j < length (children (h' q'))" "children (h' q') ! j = Some k'" for q' j k'
    proof -
      from that(2,3) q(2) have n: "\<not> (q' = q \<and> j = i)" by (auto simp: ch)
      with that(2,3) have "j < length (children (h q'))" "children (h q') ! j = Some k'"
        by (auto simp: ch split: if_splits)
      from fd(5) [OF that(1) this] n show ?thesis by auto
    qed
    show "r \<in> V \<or> (\<exists>j. (Some r, None, j) \<in> set bl)" if "r \<in> D" "\<not> squished (h0 r)" for r
      using fd(6) [OF that] by simp
  qed
qed

lemma gc_pop_live:
  assumes fo: "forest N h0 rs" and R: "R = set rs"
    and hi: "gc_heap_inv N h0 R D V h"
    and fi: "gc_frames_inv N h0 D V h (bl @ [(Some k, p, i)])"
    and live: "\<not> squished (h k)"
  defines "fr \<equiv> map (\<lambda>(i, child). (child, Some k, i)) (enumerate 0 (children (h k)))"
  shows "gc_heap_inv N h0 R D (insert k V) h"
    "gc_frames_inv N h0 D (insert k V) h (bl @ fr)"
    "\<forall>g \<in> set fr. wt N g < wt N (Some k, p, i)"
proof -
  note hd = gc_heap_invD [OF hi]
  note fd = gc_frames_invD [OF fi]
  from fd(1) [of "Some k" p i] have k: "k < N" "k \<notin> V" by simp_all
  from live hd(2) have live0: "\<not> squished (h0 k)" by (simp add: same_but_children_fields)
  from k(2) have ck: "children (h k) = children (h0 k)" by (rule hd(3))
  have frs: "f \<in> set fr \<longleftrightarrow> (\<exists>j < length (children (h k)). f = (children (h k) ! j, Some k, j))" for f
    unfolding fr_def by (rule frames_set)
  have kid: "\<exists>k'. children (h k) ! j = Some k' \<and> k < k' \<and> k' < N" if "j < length (children (h k))" for j
    using forest_child [OF fo k(1), of "children (h k) ! j"] that by (simp add: ck)
  have fresh: "k' \<notin> V" if "Some k' \<in> set (children (h0 k))" for k'
  proof
    assume v: "k' \<in> V"
    from hd(8) [OF v] show False
    proof
      assume "k' \<in> D"
      with hd(1) R have "k' \<in> set rs" by auto
      from forest_roots(3) [OF fo this k(1)] that show False by simp
    next
      assume "\<exists>p \<in> V. Some k' \<in> set (children (h0 p))"
      then obtain p' where p': "p' \<in> V" "Some k' \<in> set (children (h0 p'))" by blast
      from forest_parent [OF fo hd(6) [OF p'(1)] k(1) p'(2) that] p'(1) k(2) show False by simp
    qed
  qed
  have parent: "k \<in> D \<or> (\<exists>q \<in> V. Some k \<in> set (children (h0 q)))"
  proof (cases p)
    case None
    with fd(2) [of "Some k" i] show ?thesis by simp
  next
    case (Some q)
    with fd(3) [of "Some k" q i] have "q \<in> V" "Some k \<in> set (children (h q))"
      by (auto simp: in_set_conv_nth)
    with hd(4) show ?thesis by blast
  qed
  show "gc_heap_inv N h0 R D (insert k V) h"
  proof (rule gc_heap_invI)
    show "D \<subseteq> R" by (rule hd(1))
    show "same_but_children h0 h" by (rule hd(2))
    show "children (h b) = children (h0 b)" if "b \<notin> insert k V" for b
      using that hd(3) [of b] by simp
    show "Some k' \<in> set (children (h0 b))" if "Some k' \<in> set (children (h b))" for b k'
      using that by (rule hd(4))
    show "Some k' \<in> set (children (h b))"
      if "Some k' \<in> set (children (h0 b))" "\<not> squished (h0 k')" for b k'
      using that by (rule hd(5))
    show "v < N \<and> \<not> squished (h0 v) \<and>
          (v \<in> D \<or> (\<exists>p \<in> insert k V. Some v \<in> set (children (h0 p))))"
      if "v \<in> insert k V" for v
    proof (cases "v = k")
      case True
      with k(1) live0 parent show ?thesis by auto
    next
      case False
      with that have "v \<in> V" by simp
      from hd(6-8) [OF this] show ?thesis by auto
    qed
  qed
  show "gc_frames_inv N h0 D (insert k V) h (bl @ fr)"
  proof (rule gc_frames_invI)
    show "\<exists>k'. c = Some k' \<and> k' < N \<and> k' \<notin> insert k V" if "(c, p', j) \<in> set (bl @ fr)" for c p' j
    proof (cases "(c, p', j) \<in> set bl")
      case True
      from fd(1) [of c p' j] True obtain k' where "c = Some k'" "k' < N" "k' \<notin> V" by auto
      moreover from distinct_snoc_fst [OF fd(4) True] have "c \<noteq> Some k" .
      ultimately show ?thesis by auto
    next
      case False
      with that have "(c, p', j) \<in> set fr" by simp
      then obtain j' where j': "j' < length (children (h k))" "c = children (h k) ! j'"
        by (auto simp: frs)
      from kid [OF j'(1)] obtain k' where k': "children (h k) ! j' = Some k'" "k < k'" "k' < N"
        by blast
      from k'(1) j'(1) have "Some k' \<in> set (children (h0 k))"
        by (metis ck nth_mem)
      from fresh [OF this] k' j'(2) show ?thesis by auto
    qed
    show "\<exists>k. c = Some k \<and> k \<in> D" if "(c, None, j) \<in> set (bl @ fr)" for c j
    proof -
      from that have "(c, None, j) \<in> set bl" by (auto simp: frs)
      with fd(2) [of c j] show ?thesis by simp
    qed
    show "q \<in> insert k V \<and> j < length (children (h q)) \<and> children (h q) ! j = c"
      if "(c, Some q, j) \<in> set (bl @ fr)" for c q j
    proof (cases "(c, Some q, j) \<in> set bl")
      case True
      with fd(3) [of c q j] show ?thesis by simp
    next
      case False
      with that have "(c, Some q, j) \<in> set fr" by simp
      thus ?thesis by (auto simp: frs)
    qed
    show "distinct (map fst (bl @ fr))"
    proof -
      have 1: "distinct (map fst bl)" using fd(4) by simp
      have 2: "distinct (map fst fr)"
        unfolding fr_def frames_fst ck by (rule forest_distinct [OF fo k(1)])
      have 3: "fst ` set bl \<inter> fst ` set fr = {}"
      proof (rule ccontr)
        assume "fst ` set bl \<inter> fst ` set fr \<noteq> {}"
        then obtain c p' j p'' j' where b: "(c, p', j) \<in> set bl" and f: "(c, p'', j') \<in> set fr"
          by force
        from f obtain j2 where j2: "j2 < length (children (h k))" "c = children (h k) ! j2"
          by (auto simp: frs)
        from kid [OF j2(1)] j2(2) obtain k' where k': "c = Some k'" by auto
        with j2 have in0: "Some k' \<in> set (children (h0 k))" by (metis ck nth_mem)
        show False
        proof (cases p')
          case None
          with fd(2) [of c j] b k' have "k' \<in> D" by simp
          with hd(1) R have "k' \<in> set rs" by auto
          from forest_roots(3) [OF fo this k(1)] in0 show False by simp
        next
          case (Some q)
          with fd(3) [of c q j] b k' have q: "q \<in> V" "Some k' \<in> set (children (h q))"
            by (auto simp: in_set_conv_nth)
          from hd(4) [OF q(2)] have "Some k' \<in> set (children (h0 q))" .
          from forest_parent [OF fo hd(6) [OF q(1)] k(1) this in0] q(1) k(2) show False by simp
        qed
      qed
      from 1 2 3 show ?thesis by simp
    qed
    show "k' \<in> insert k V \<or> (Some k', Some q, j) \<in> set (bl @ fr)"
      if "q \<in> insert k V" "j < length (children (h q))" "children (h q) ! j = Some k'" for q j k'
    proof (cases "q = k")
      case True
      with that(2,3) have "(Some k', Some q, j) \<in> set fr" by (auto simp: frs)
      thus ?thesis by simp
    next
      case False
      with that(1) have "q \<in> V" by simp
      from fd(5) [OF this that(2,3)] show ?thesis by auto
    qed
    show "r \<in> insert k V \<or> (\<exists>j. (Some r, None, j) \<in> set (bl @ fr))"
      if "r \<in> D" "\<not> squished (h0 r)" for r
      using fd(6) [OF that] by auto
  qed
  show "\<forall>g \<in> set fr. wt N g < wt N (Some k, p, i)"
  proof
    fix g assume "g \<in> set fr"
    then obtain j where j: "j < length (children (h k))" "g = (children (h k) ! j, Some k, j)"
      by (auto simp: frs)
    from kid [OF j(1)] j(2) k(1) show "wt N g < wt N (Some k, p, i)"
      by (auto simp: wt_def)
  qed
qed

lemma py_set_index: "i < length xs \<Longrightarrow> py_set xs (int i) v = Inr (xs[i := v])"
  by (simp add: py_set_def py_slot_def)

lemma gc_step_inv:
  assumes fo: "forest N h0 rs" and R: "R = set rs"
    and inv: "gc_inv N h0 R D h stk"
  shows "case gc_step h stk of
           Done res \<Rightarrow> stk = [] \<and> res = Inr h
         | Next h' stk' \<Rightarrow> gc_inv N h0 R D h' stk' \<and> ((h', stk'), (h, stk)) \<in> gc_less N"
proof (cases stk rule: rev_cases)
  case Nil
  thus ?thesis by (simp add: gc_step_Nil)
next
  case (snoc bl f)
  obtain c p i where f: "f = (c, p, i)" by (cases f)
  from inv obtain V where hi: "gc_heap_inv N h0 R D V h"
    and fi: "gc_frames_inv N h0 D V h (bl @ [(c, p, i)])"
    unfolding gc_inv_def snoc f by blast
  from gc_frames_invD(1) [OF fi, of c p i] obtain k where k: "c = Some k" by auto
  note fi = fi [unfolded k]
  show ?thesis
  proof (cases "squished (h k)")
    case False
    note pl = gc_pop_live [OF fo R hi fi False]
    have "((h, bl @ map (\<lambda>(i, child). (child, Some k, i)) (enumerate 0 (children (h k)))),
           (h, bl @ [(Some k, p, i)])) \<in> gc_less N"
      by (rule gc_less_push [OF pl(3)])
    with pl(1,2) False show ?thesis
      unfolding snoc f k gc_inv_def by (auto simp: gc_step_snoc)
  next
    case True
    show ?thesis
    proof (cases p)
      case None
      from gc_pop_dead_root [OF hi fi [unfolded None] True] hi True None show ?thesis
        unfolding snoc f k gc_inv_def by (auto simp: gc_step_snoc intro: gc_less_pop)
    next
      case (Some q)
      from gc_frames_invD(3) [OF fi, of "Some k" q i] Some
      have "i < length (children (h q))" by simp
      hence "py_set (children (h q)) (int i) None = Inr ((children (h q))[i := None])"
        by (rule py_set_index)
      with gc_pop_dead_child [OF hi fi [unfolded Some] True] True Some show ?thesis
        unfolding snoc f k gc_inv_def by (auto simp: gc_step_snoc intro: gc_less_pop)
    qed
  qed
qed

lemma gc_loop_inv:
  assumes fo: "forest N h0 rs" and R: "R = set rs"
    and inv: "gc_inv N h0 R D h stk"
  shows "\<exists>h'. gc_loop h stk = Some (Inr h') \<and> gc_inv N h0 R D h' []"
proof -
  have step: "gc_inv N h0 R D h1 stk1 \<Longrightarrow> gc_step h1 stk1 = Next h2 stk2 \<Longrightarrow>
              gc_inv N h0 R D h2 stk2 \<and> ((h2, stk2), (h1, stk1)) \<in> gc_less N" for h1 stk1 h2 stk2
    using gc_step_inv [OF fo R, of D h1 stk1] by simp
  from gc_loop_terminates [OF wf_gc_less, of "gc_inv N h0 R D" h stk N, OF inv step]
  obtain res where res: "gc_loop h stk = Some res" by blast
  have "\<exists>h1 stk1. gc_inv N h0 R D h1 stk1 \<and> gc_step h1 stk1 = Done res"
    using res inv
  proof (rule gc_loop_invariant)
    show "gc_inv N h0 R D h1 stk1 \<Longrightarrow> gc_step h1 stk1 = Next h2 stk2 \<Longrightarrow>
          gc_inv N h0 R D h2 stk2" for h1 stk1 h2 stk2
      using step by blast
  qed
  then obtain h1 stk1 where 1: "gc_inv N h0 R D h1 stk1" "gc_step h1 stk1 = Done res" by blast
  from gc_step_inv [OF fo R 1(1)] 1(2) have "stk1 = []" "res = Inr h1" by simp_all
  with res 1(1) show ?thesis by auto
qed

lemma gc_inv_start: "gc_inv N h0 R {} h0 []"
  unfolding gc_inv_def
proof (intro exI conjI)
  show "gc_heap_inv N h0 R {} {} h0"
    by (rule gc_heap_invI) (simp_all add: same_but_children_refl)
  show "gc_frames_inv N h0 {} {} h0 []"
    by (rule gc_frames_invI) simp_all
qed

lemma gc_root_inv:
  assumes fo: "forest N h0 rs" and R: "R = set rs"
    and inv: "gc_inv N h0 R D h []" and r: "r \<in> R" "r \<notin> D"
  shows "\<exists>h'. gc_root h r = Some (Inr h') \<and> gc_inv N h0 R (insert r D) h' []"
proof -
  from inv obtain V where hi: "gc_heap_inv N h0 R D V h" and fi: "gc_frames_inv N h0 D V h []"
    unfolding gc_inv_def by blast
  note hd = gc_heap_invD [OF hi]
  note fd = gc_frames_invD [OF fi]
  from r R have rN: "r < N" using forest_roots(2) [OF fo] by simp
  have rV: "r \<notin> V"
  proof
    assume v: "r \<in> V"
    from hd(8) [OF v] r(2) obtain p where "p \<in> V" "Some r \<in> set (children (h0 p))" by blast
    with forest_roots(3) [OF fo, of r p] hd(6) [of p] r(1) R show False by simp
  qed
  have hi': "gc_heap_inv N h0 R (insert r D) V h"
  proof (rule gc_heap_invI)
    show "insert r D \<subseteq> R" using hd(1) r(1) by simp
    show "same_but_children h0 h" by (rule hd(2))
    show "b \<notin> V \<Longrightarrow> children (h b) = children (h0 b)" for b by (rule hd(3))
    show "Some k \<in> set (children (h b)) \<Longrightarrow> Some k \<in> set (children (h0 b))" for b k
      by (rule hd(4))
    show "Some k \<in> set (children (h0 b)) \<Longrightarrow> \<not> squished (h0 k) \<Longrightarrow>
          Some k \<in> set (children (h b))" for b k by (rule hd(5))
    show "v < N \<and> \<not> squished (h0 v) \<and>
          (v \<in> insert r D \<or> (\<exists>p \<in> V. Some v \<in> set (children (h0 p))))" if "v \<in> V" for v
      using hd(6-8) [OF that] by auto
  qed
  have sq: "squished (h b) = squished (h0 b)" for b
    using hd(2) by (simp add: same_but_children_fields)
  show ?thesis
  proof (cases "squished (h r)")
    case True
    have "gc_frames_inv N h0 (insert r D) V h []"
    proof (rule gc_frames_invI)
      show "r' \<in> V \<or> (\<exists>i. (Some r', None, i) \<in> set ([] :: frame list))"
        if "r' \<in> insert r D" "\<not> squished (h0 r')" for r'
        using that True fd(6) [of r'] by (auto simp: sq)
      show "k \<in> V \<or> (Some k, Some q, i) \<in> set ([] :: frame list)"
        if "q \<in> V" "i < length (children (h q))" "children (h q) ! i = Some k" for q i k
        using fd(5) [OF that] .
    qed simp_all
    with hi' True show ?thesis by (auto simp: gc_root_def gc_inv_def)
  next
    case False
    have "gc_frames_inv N h0 (insert r D) V h [(Some r, None, 0 :: nat)]"
    proof (rule gc_frames_invI)
      show "\<exists>k. c = Some k \<and> k < N \<and> k \<notin> V" if "(c, p, i) \<in> set [(Some r, None :: nat option, 0 :: nat)]" for c p i
        using that rN rV by simp
      show "\<exists>k. c = Some k \<and> k \<in> insert r D" if "(c, None, i) \<in> set [(Some r, None, 0 :: nat)]" for c i
        using that by simp
      show "q \<in> V \<and> i < length (children (h q)) \<and> children (h q) ! i = c"
        if "(c, Some q, i) \<in> set [(Some r, None, 0 :: nat)]" for c q i
        using that by simp
      show "distinct (map fst [(Some r, None :: nat option, 0 :: nat)])" by simp
      show "k \<in> V \<or> (Some k, Some q, i) \<in> set [(Some r, None, 0 :: nat)]"
        if "q \<in> V" "i < length (children (h q))" "children (h q) ! i = Some k" for q i k
        using fd(5) [OF that] by simp
      show "r' \<in> V \<or> (\<exists>i. (Some r', None, i) \<in> set [(Some r, None :: nat option, 0 :: nat)])"
        if "r' \<in> insert r D" "\<not> squished (h0 r')" for r'
        using that fd(6) [of r'] by auto
    qed
    with hi' have "gc_inv N h0 R (insert r D) h [(Some r, None, 0 :: nat)]"
      unfolding gc_inv_def by blast
    from gc_loop_inv [OF fo R this] obtain h1 where
      l: "gc_loop h [(Some r, None, 0 :: nat)] = Some (Inr h1)" and i1: "gc_inv N h0 R (insert r D) h1 []"
      by blast
    from i1 obtain V1 where hi1: "gc_heap_inv N h0 R (insert r D) V1 h1"
      and fi1: "gc_frames_inv N h0 (insert r D) V1 h1 []"
      unfolding gc_inv_def by blast
    note hd1 = gc_heap_invD [OF hi1]
    note fd1 = gc_frames_invD [OF fi1]
    have sq1: "squished (h1 b) = squished (h0 b)" for b
      using hd1(2) by (simp add: same_but_children_fields)
    from False have live: "\<not> squished (h0 r)" by (simp add: sq)
    with fd1(6) [of r] have r1: "r \<in> V1" by simp
    let ?h' = "h1(r := (h1 r)\<lparr>children := filter (\<lambda>child. child \<noteq> None) (children (h1 r))\<rparr>)"
    have ch: "set (children (?h' b)) \<inter> range Some = set (children (h1 b)) \<inter> range Some" for b
      by auto
    have mem: "Some k \<in> set (children (?h' b)) \<longleftrightarrow> Some k \<in> set (children (h1 b))" for b k
      by simp
    have "gc_heap_inv N h0 R (insert r D) V1 ?h'"
    proof (rule gc_heap_invI)
      show "insert r D \<subseteq> R" by (rule hd1(1))
      show "same_but_children h0 ?h'" using hd1(2) by (rule same_but_children_upd)
      show "children (?h' b) = children (h0 b)" if "b \<notin> V1" for b
        using that r1 hd1(3) [of b] by auto
      show "Some k \<in> set (children (h0 b))" if "Some k \<in> set (children (?h' b))" for b k
        using that hd1(4) [of k b] by (simp only: mem)
      show "Some k \<in> set (children (?h' b))"
        if "Some k \<in> set (children (h0 b))" "\<not> squished (h0 k)" for b k
        using hd1(5) [OF that] by (simp only: mem)
      show "v < N \<and> \<not> squished (h0 v) \<and>
          (v \<in> insert r D \<or> (\<exists>p \<in> V1. Some v \<in> set (children (h0 p))))" if "v \<in> V1" for v
        using hd1(6-8) [OF that] by auto
    qed
    moreover have "gc_frames_inv N h0 (insert r D) V1 ?h' []"
    proof (rule gc_frames_invI)
      show "k \<in> V1 \<or> (Some k, Some q, i) \<in> set ([] :: frame list)"
        if "q \<in> V1" "i < length (children (?h' q))" "children (?h' q) ! i = Some k" for q i k
      proof -
        from that(2,3) have "Some k \<in> set (children (?h' q))" by (metis nth_mem)
        hence "Some k \<in> set (children (h1 q))" by (simp only: mem)
        then obtain j where "j < length (children (h1 q))" "children (h1 q) ! j = Some k"
          by (auto simp: in_set_conv_nth)
        from fd1(5) [OF that(1) this] show ?thesis by simp
      qed
      show "r' \<in> V1 \<or> (\<exists>i. (Some r', None, i) \<in> set ([] :: frame list))"
        if "r' \<in> insert r D" "\<not> squished (h0 r')" for r'
        using fd1(6) [OF that] .
    qed simp_all
    ultimately have "gc_inv N h0 R (insert r D) ?h' []" unfolding gc_inv_def by blast
    moreover from False l live have "gc_root h r = Some (Inr ?h')"
      by (simp add: gc_root_def sq1)
    ultimately show ?thesis by blast
  qed
qed

lemma gc_roots_inv:
  assumes fo: "forest N h0 rs" and R: "R = set rs"
  shows "gc_inv N h0 R D h [] \<Longrightarrow> distinct xs \<Longrightarrow> set xs \<subseteq> R \<Longrightarrow> set xs \<inter> D = {} \<Longrightarrow>
         \<exists>h'. gc_roots xs h = Some (Inr h') \<and> gc_inv N h0 R (D \<union> set xs) h' []"
proof (induction xs arbitrary: D h)
  case Nil
  then show ?case by simp
next
  case (Cons r xs)
  from Cons.prems have r: "r \<in> R" "r \<notin> D" by auto
  from gc_root_inv [OF fo R Cons.prems(1) r] obtain h1 where
    1: "gc_root h r = Some (Inr h1)" "gc_inv N h0 R (insert r D) h1 []" by blast
  from Cons.prems have "distinct xs" "set xs \<subseteq> R" "set xs \<inter> insert r D = {}" by auto
  from Cons.IH [OF 1(2) this] obtain h' where
    "gc_roots xs h1 = Some (Inr h')" "gc_inv N h0 R (insert r D \<union> set xs) h' []" by blast
  with 1(1) show ?case by simp
qed

lemma live_reach_live: "v \<in> live_reach h R \<Longrightarrow> \<not> squished (h v)"
  by (induction rule: live_reach.induct) simp_all

subsection \<open>Blocked moves\<close>

text \<open>
  A travel whose destination is inside the board and occupied changes nothing but the
  \<open>coords\<close> of the traveller, which become the destination.
\<close>

lemma moveAlien_blocked:
  "isEmpty s old = Inr e \<Longrightarrow> isEmpty s new = Inr False \<Longrightarrow> moveAlien s old new = Inr s"
  by (simp add: moveAlien_def)

lemma doTravel_blocked:
  assumes "randint (- 1) 1 g = (distx, g1)" and "randint (- 1) 1 g1 = (disty, g2)"
    and "dest = (xpos (heap s a) + distx, ypos (heap s a) + disty)"
    and "inRange s dest"
    and "isEmpty s (coords (heap s a)) = Inr e" and "isEmpty s dest = Inr False"
  shows "doTravel s a g = Inr (s\<lparr>heap := (heap s)(a := (heap s a)\<lparr>coords := dest\<rparr>)\<rparr>, g2)"
  using assms by (simp add: doTravel_def Let_def moveAlien_blocked)

subsection \<open>The nuke on a board whose entities are stored at their own cells\<close>

text \<open>
  On the fixed board, when each entity on the grid is stored at its own cell, the win
  check does nothing up to turn 5, and past turn 5 it nukes the board exactly when the
  strengths of the live entities on the grid sum to less than the player's strength; the
  nuke then empties every cell and kills every entity on the grid.
\<close>

lemma nuke_check_synced:
  assumes "shape s" "synced s" "the_player s = Some p"
  shows "(turn p \<le> 5 \<longrightarrow> nuke_check s = Inr (s, False)) \<and>
         (turn p > 5 \<and> \<not> sum_list (map (\<lambda>a. strength (heap s a)) (alive_aliens s)) < pstrength p \<longrightarrow>
            nuke_check s = Inr (s, False)) \<and>
         (turn p > 5 \<and> sum_list (map (\<lambda>a. strength (heap s a)) (alive_aliens s)) < pstrength p \<longrightarrow>
            (\<exists>s'. nuke_check s = Inr (s', True) \<and>
                  (\<forall>a \<in> set (alive_aliens s). squished (heap s' a)) \<and>
                  alive_aliens s' = [] \<and>
                  (\<forall>c. inRange s c \<longrightarrow> cell_at s' c = None) \<and>
                  (board_inv s \<longrightarrow> (\<forall>a < next_ref s. squished (heap s' a)))))"
proof -
  from nuke_board_clears [OF assms(1,2)] obtain s' where
    n: "nuke_board s = Inr s'" and od: "only_deaths s s'"
    and cl: "\<And>c. inRange s c \<Longrightarrow> cell_at s' c = None" by blast
  have killed: "squished (heap s' a)" if "row \<in> set (board s)" "Some a \<in> set row" for row a
  proof -
    from on_grid_cell [OF assms(1) that] obtain c where "inRange s c" "cell_at s c = Some a"
      by blast
    with od cl show ?thesis by (blast intro: cleared_dead)
  qed
  have 1: "\<forall>a \<in> set (alive_aliens s). squished (heap s' a)"
    using killed by (auto simp: alive_aliens_set)
  have "set (alive_aliens s') = {}"
  proof -
    { fix a row assume "row \<in> set (board s')" "Some a \<in> set row"
      from on_grid_cell [OF only_deathsD(1) [OF od] this] obtain c
        where "inRange s' c" "cell_at s' c = Some a" by blast
      with cl od have False by (simp add: only_deaths_inRange) }
    thus ?thesis by (auto simp: alive_aliens_set)
  qed
  hence 2: "alive_aliens s' = []" by simp
  have 3: "\<forall>a < next_ref s. squished (heap s' a)" if "board_inv s"
  proof (intro allI impI)
    fix a assume "a < next_ref s"
    with that have "squished (heap s a) \<or> cells_of s a \<noteq> []"
      by (auto simp: board_inv_def list_all_iff)
    thus "squished (heap s' a)"
      using only_deathsD(8) [OF od] cells_of_nonempty killed by blast
  qed
  from n 1 2 3 cl assms(3) show ?thesis
    by (simp add: nuke_check_def Let_def)
qed

subsection \<open>Lookups with a negative coordinate\<close>

text \<open>
  Claim C10. \<open>getAlien\<close> does not check bounds. For a coordinate with a negative component
  of magnitude at most the board's dimension the lookup neither raises nor reports the
  cell as out of range: Python's negative indexing wraps it, and the occupant of the cell
  counted from the opposite edge comes back. A caller has to check the bounds first.
\<close>

theorem getAlien_negative_index_wraps:
  assumes "rect s"
    and "- height s \<le> cx" and "cx < height s"
    and "- width s \<le> cy" and "cy < width s"
    and "cx < 0 \<or> cy < 0"
  shows "getAlien s (cx, cy) =
           Inr (board s ! nat (if cx < 0 then height s + cx else cx)
                        ! nat (if cy < 0 then width s + cy else cy))"
proof -
  let ?r = "nat (if cx < 0 then height s + cx else cx)"
  from assms have len: "int (length (board s)) = height s"
    by (auto simp: rect_def)
  with assms have r: "?r < length (board s)" by auto
  hence "board s ! ?r \<in> set (board s)" by simp
  with assms have w: "int (length (board s ! ?r)) = width s"
    by (auto simp: rect_def)
  have 1: "py_get (board s) cx = Inr (board s ! ?r)"
    using py_get_wrap [of "board s" cx] assms len by simp
  have 2: "py_get (board s ! ?r) cy =
             Inr (board s ! ?r ! nat (if cy < 0 then width s + cy else cy))"
    using py_get_wrap [of "board s ! ?r" cy] assms w by simp
  show ?thesis
    using 1 2 by (simp add: getAlien_def)
qed

text \<open>
  On the 8 by 8 board with one alien at \<open>(7, 2)\<close>, the lookup at \<open>(-1, 2)\<close>, which
  \<open>inRange\<close> rejects, returns that alien.
\<close>

theorem getAlien_negative_index_wraps_witness:
  "rect (placed [((7, 2), 4)] start) \<and> \<not> inRange (placed [((7, 2), 4)] start) (- 1, 2) \<and>
   getAlien (placed [((7, 2), 4)] start) (- 1, 2) = Inr (Some 0) \<and>
   getAlien (placed [((7, 2), 4)] start) (7, 2) = Inr (Some 0)"
proof -
  let ?s = "placed [((7, 2), 4)] start"
  have h: "rect ?s" "- height ?s \<le> - 1" "- 1 < height ?s" "- width ?s \<le> 2" "2 < width ?s"
    by code_simp+
  have b: "board ?s ! nat (height ?s + - 1) ! nat 2 = Some 0" by code_simp
  have c: "\<not> inRange ?s (- 1, 2)" "getAlien ?s (7, 2) = Inr (Some 0)" by code_simp+
  from getAlien_negative_index_wraps [OF h] b c h(1) show ?thesis by simp
qed

subsection \<open>Attacks that miss\<close>

text \<open>
  Claim C5. An attack whose target coordinate is outside the board, or whose target cell
  is empty, returns the failure score \<open>-1\<close> and leaves the whole state as it was: the
  player's strength, score and consecutive hits, every entity and the grid.
\<close>

theorem squish_miss_changes_nothing:
  assumes "\<not> (0 \<le> fst c \<and> fst c < width s \<and> 0 \<le> snd c \<and> snd c < height s) \<or>
           getAlien s c = Inr None"
  shows "squish s c k = Inr (s, - 1)"
  using assms by (auto simp: squish_def isEmpty_def)

theorem squish_miss_changes_nothing_witness:
  "squish duo (10, 10) 1 = Inr (duo, - 1) \<and> squish duo (4, 4) 3 = Inr (duo, - 1) \<and>
   \<not> inRange duo (10, 10) \<and> getAlien duo (4, 4) = Inr None"
proof -
  let ?far = "(10, 10) :: int \<times> int"
  have a: "\<not> (0 \<le> fst ?far \<and> fst ?far < width duo \<and> 0 \<le> snd ?far \<and> snd ?far < height duo)"
    by code_simp
  have b: "getAlien duo (4, 4) = Inr None" "\<not> inRange duo (10, 10)" by code_simp+
  from squish_miss_changes_nothing [of ?far duo 1] a
       squish_miss_changes_nothing [of "(4, 4)" duo 3] b
  show ?thesis by blast
qed

subsection \<open>Travel into an occupied cell\<close>

text \<open>
  Claim C1 says that a travel whose destination is in bounds but occupied leaves the
  entity's stored position and the grid unchanged. \<open>doTravel\<close> assigns \<open>coords\<close> after
  \<open>moveAlien\<close> whether or not the move took place. Alien 0 at \<open>(0, 0)\<close> draws the offsets
  \<open>(0, 1)\<close> towards alien 1: the grid, \<open>x\<close> and \<open>y\<close> stay, and \<open>coords\<close> becomes \<open>(0, 1)\<close>,
  the cell of alien 1.
\<close>

theorem doTravel_blocked_moves_coords:
  "getAlien duo (0, 1) = Inr (Some 1) \<and> coords (heap duo 0) = (0, 0) \<and>
   fst (randint (- 1) 1 (draws [1, 2])) = 0 \<and>
   fst (randint (- 1) 1 (snd (randint (- 1) 1 (draws [1, 2])))) = 1 \<and>
   (case doTravel duo 0 (draws [1, 2]) of
      Inl e \<Rightarrow> False
    | Inr (s1, g1) \<Rightarrow>
        board s1 = board duo \<and> coords (heap s1 0) = (0, 1) \<and>
        xpos (heap s1 0) = 0 \<and> ypos (heap s1 0) = 0 \<and> \<not> squished (heap s1 0))"
  by code_simp

subsection \<open>The board invariant after a blocked travel\<close>

text \<open>
  Claim C2 says that after every operation each live entity is held by exactly one cell,
  which points back to it. The blocked travel above already leaves alien 0 in a cell that
  is not its stored \<open>coords\<close>. After it, an attack of strength 5 on
  \<open>(0, 0)\<close> kills alien 0, and its death clears the cell named by its stale \<open>coords\<close>:
  the cell of alien 1. Alien 1 is then alive and held by no cell, and the dead alien 0 is
  still on the grid.
\<close>

theorem blocked_travel_then_attack_breaks_board:
  "board_inv duo \<and>
   (case doTravel duo 0 (draws [1, 2]) of
      Inl e \<Rightarrow> False
    | Inr (s1, g1) \<Rightarrow>
        \<not> board_inv s1 \<and> cells_of s1 0 = [(0, 0)] \<and> coords (heap s1 0) = (0, 1) \<and>
        (case squish s1 (0, 0) 5 of
           Inl e \<Rightarrow> False
         | Inr (s2, sc) \<Rightarrow>
             \<not> board_inv s2 \<and> \<not> squished (heap s2 1) \<and> cells_of s2 1 = [] \<and>
             squished (heap s2 0) \<and> cells_of s2 0 = [(0, 0)]))"
  by code_simp

subsection \<open>The hit that sets off the radius bomb\<close>

text \<open>
  Claim C4 says that after five consecutive damaging attacks the next damaging attack
  sets off the area effect, as the header comment of the program does. \<open>squish\<close> counts
  the hit first and then tests \<open>consecutive_hits >= 5\<close>, so the fifth hit itself sets the
  bomb off. From a fresh player: after four hits on \<open>(0, 0)\<close> the counter is 4 and the
  target lives with strength 5; the fifth hit kills it at strength 4 and the counter is 0;
  the sixth damaging attack, on \<open>(5, 5)\<close>, sets off nothing: its target survives with
  strength 8 in its cell and the counter is 1.
\<close>

theorem bomb_on_fifth_hit:
  "(case attacks (replicate 4 ((0, 0), 1)) apart of
      Inl e \<Rightarrow> False
    | Inr (s, scs) \<Rightarrow>
        scs = [1, 1, 1, 1] \<and> map_option consecutive_hits (the_player s) = Some 4 \<and>
        \<not> squished (heap s 0) \<and> strength (heap s 0) = 5) \<and>
   (case attacks (replicate 5 ((0, 0), 1)) apart of
      Inl e \<Rightarrow> False
    | Inr (s, scs) \<Rightarrow>
        scs = [1, 1, 1, 1, 1] \<and> map_option consecutive_hits (the_player s) = Some 0 \<and>
        squished (heap s 0) \<and> strength (heap s 0) = 4) \<and>
   (case attacks (replicate 5 ((0, 0), 1) @ [((5, 5), 1)]) apart of
      Inl e \<Rightarrow> False
    | Inr (s, scs) \<Rightarrow>
        scs = [1, 1, 1, 1, 1, 1] \<and> map_option consecutive_hits (the_player s) = Some 1 \<and>
        \<not> squished (heap s 1) \<and> strength (heap s 1) = 8 \<and> cells_of s 1 = [(5, 5)])"
  by code_simp

subsection \<open>Null slots the collector leaves behind\<close>

text \<open>
  Claim C7 says that after a collection no child list of a visited live node holds a null
  slot. \<open>garbage_collect\<close> compacts the child list of the root only. In \<open>lineage\<close> the
  live root 0 has the live child 2, whose child 3 is dead: after the collection the list of
  alien 2 is \<open>[None]\<close>, and the next collection raises on that slot.
\<close>

theorem gc_leaves_null_slot:
  "\<not> squished (heap lineage 0) \<and> children (heap lineage 0) = [Some 2] \<and>
   \<not> squished (heap lineage 2) \<and> children (heap lineage 2) = [Some 3] \<and>
   squished (heap lineage 3) \<and>
   (case garbage_collect lineage [0, 1] of
      Some (Inr (s, rs)) \<Rightarrow>
        rs = [0, 1] \<and> children (heap s 0) = [Some 2] \<and> children (heap s 2) = [None] \<and>
        (case garbage_collect s rs of Some (Inl e) \<Rightarrow> e = AttributeError | _ \<Rightarrow> False)
    | _ \<Rightarrow> False)"
  by code_simp

subsection \<open>The nuke\<close>

text \<open>
  Claim C9 says that the nuke, when the win check fires, kills every live entity. The
  nuke walks the grid and lets each entity it finds clear the cell named by its own
  \<open>coords\<close>. In \<open>weak_neighbours\<close> the player is in turn 6 with strength 3 and the two
  live aliens have strength 1 each. Alien 0 draws the offsets \<open>(0, +1)\<close> and travels
  into the cell of alien 1: the move is blocked, yet its \<open>coords\<close> become \<open>(0, 1)\<close>.
  The win check then sums the strengths to 2, nukes the board and reports the win, but
  the death of alien 0 clears the cell of alien 1 before the walk comes to it: alien 1
  is still alive, at strength 1 and in no cell, and the dead alien 0 is still in cell
  \<open>(0, 0)\<close>.
\<close>

theorem nuke_after_blocked_travel_spares_alien:
  "map_option turn (the_player weak_neighbours) = Some 6 \<and>
   map_option pstrength (the_player weak_neighbours) = Some 3 \<and>
   board_inv weak_neighbours \<and>
   (case doTravel weak_neighbours 0 (draws [1, 2]) of
      Inl e \<Rightarrow> False
    | Inr (s, g) \<Rightarrow>
        map_option turn (the_player s) = Some 6 \<and>
        map_option pstrength (the_player s) = Some 3 \<and>
        \<not> squished (heap s 0) \<and> strength (heap s 0) = 1 \<and> cells_of s 0 = [(0, 0)] \<and>
        coords (heap s 0) = (0, 1) \<and>
        \<not> squished (heap s 1) \<and> strength (heap s 1) = 1 \<and> cells_of s 1 = [(0, 1)] \<and>
        next_ref s = 2 \<and> alive_aliens s = [0, 1] \<and>
        sum_list (map (\<lambda>a. strength (heap s a)) (alive_aliens s)) = 2 \<and>
        (case nuke_check s of
           Inl e \<Rightarrow> False
         | Inr (s', won) \<Rightarrow>
             won \<and>
             squished (heap s' 0) \<and> cells_of s' 0 = [(0, 0)] \<and>
             \<not> squished (heap s' 1) \<and> strength (heap s' 1) = 1 \<and> cells_of s' 1 = []))"
  by code_simp

subsection \<open>The damage of a hit\<close>

text \<open>
  Claim C6 says that a hit applies \<open>min(attack strength, target strength)\<close> to the target
  and returns it as the score. The score is that minimum, but \<open>squish\<close> passes the whole
  attack strength to \<open>doPop\<close>: a target of strength 2 hit with strength 3 ends at
  strength \<open>-1\<close>, not 0. The claim as stated, for every attack on an occupied cell inside
  the board, is refuted by that hit.
\<close>

theorem capped_damage_counterexample:
  "\<not> (\<forall>s c k a. inRange s c \<and> getAlien s c = Inr (Some a) \<longrightarrow>
        (\<exists>s'. squish s c k = Inr (s', min k (strength (heap s a))) \<and>
              strength (heap s' a) = strength (heap s a) - min k (strength (heap s a))))"
proof
  assume "\<forall>s c k a. inRange s c \<and> getAlien s c = Inr (Some a) \<longrightarrow>
        (\<exists>s'. squish s c k = Inr (s', min k (strength (heap s a))) \<and>
              strength (heap s' a) = strength (heap s a) - min k (strength (heap s a)))"
  moreover have "inRange lone (3, 3)" "getAlien lone (3, 3) = Inr (Some 0)" by code_simp+
  ultimately obtain s' where
    "squish lone (3, 3) 3 = Inr (s', min 3 (strength (heap lone 0)))"
    "strength (heap s' 0) = strength (heap lone 0) - min 3 (strength (heap lone 0))"
    by blast
  moreover have "strength (heap lone 0) = 2" by code_simp
  moreover have "case squish lone (3, 3) 3 of Inl e \<Rightarrow> False | Inr (s1, sc) \<Rightarrow> strength (heap s1 0) = - 1"
    by code_simp
  ultimately show False by simp
qed

text \<open>
  Claim C6 as amended. On the fixed board with a player, with every entity on the grid
  stored at its own cell, an attack on an occupied cell inside the board returns
  \<open>min(attack strength, target strength)\<close> as the score and subtracts the whole attack
  strength from the target's strength; when the result is below 1 the target is dead and
  its cell is empty. In the case of the claim, a target of strength 2 hit with strength 3,
  the call returns 2, the target dies (at strength \<open>-1\<close>) and its cell becomes empty.
\<close>

theorem squish_hit:
  assumes s: "shape s" and y: "synced s" and p: "the_player s = Some p"
    and r: "inRange s c" and a: "getAlien s c = Inr (Some a)"
  shows "\<exists>s'. squish s c k = Inr (s', min k (strength (heap s a))) \<and>
              strength (heap s' a) = strength (heap s a) - k \<and>
              (strength (heap s a) - k < 1 \<longrightarrow> squished (heap s' a) \<and> getAlien s' c = Inr None)"
proof -
  from a s r have ca: "cell_at s c = Some a" by (simp add: getAlien_cell)
  from doPop_hit [OF s y r ca, of k] obtain s1 where
    1: "doPop s a k = Inr s1" "shape s1" "synced s1" "the_player s1 = the_player s"
       "height s1 = height s" "width s1 = width s"
       "strength (heap s1 a) = strength (heap s a) - k"
       "strength (heap s a) - k < 1 \<longrightarrow> squished (heap s1 a) \<and> cell_at s1 c = None"
    by blast
  define sc where "sc = min k (strength (heap s a))"
  have r1: "inRange s1 c" using r 1(5,6) by (simp add: inRange_def)
  have p1: "the_player s1 = Some p" using 1(4) p by simp
  note sq = squish_occupied [OF r a 1(1) p1, folded sc_def]
  have goal: "\<exists>s'. squish s c k = Inr (s', sc) \<and> shape s' \<and> inRange s' c \<and>
              strength (heap s' a) = strength (heap s a) - k \<and>
              (strength (heap s a) - k < 1 \<longrightarrow> squished (heap s' a) \<and> cell_at s' c = None)"
  proof (cases "sc > 0")
    case False
    thus ?thesis using 1 r1 by (simp add: sq player_update_keeps)
  next
    case True
    let ?p1 = "p\<lparr>consecutive_hits := consecutive_hits p + 1\<rparr>"
    let ?s2 = "s1\<lparr>the_player := Some ?p1\<rparr>"
    show ?thesis
    proof (cases "consecutive_hits p + 1 \<ge> 5")
      case False
      with True show ?thesis using 1 r1 by (simp add: sq player_update_keeps)
    next
      case big: True
      have s2: "shape ?s2" "synced ?s2" "inRange ?s2 c" using 1 r1 by (simp_all add: player_update_keeps)
      from trigger_bomb_only_deaths [OF s2(1,2), of c] obtain s3 where
        3: "trigger_bomb ?s2 c = Inr s3" "only_deaths ?s2 s3" by blast
      let ?s' = "s3\<lparr>the_player := Some (?p1\<lparr>consecutive_hits := 0\<rparr>)\<rparr>"
      have p3: "the_player s3 = Some ?p1" using only_deathsD(3) [OF 3(2)] by simp
      from True big 3(1) p3 have "squish s c k = Inr (?s', sc)"
        by (simp add: sq)
      moreover have "strength (heap s3 a) = strength (heap s a) - k"
        using only_deaths_keeps_hit(1) [OF 3(2) s2(3), of a] 1(7) by simp
      moreover have "strength (heap s a) - k < 1 \<longrightarrow> squished (heap s3 a) \<and> cell_at s3 c = None"
        using only_deaths_keeps_hit(2) [OF 3(2) s2(3), of a] only_deaths_keeps_hit(3) [OF 3(2) s2(3)]
          1(8) by (simp add: player_update_keeps)
      moreover have "shape s3" "inRange s3 c"
        using only_deathsD(1) [OF 3(2)] only_deaths_inRange [OF 3(2), of c] s2(3) by simp_all
      ultimately show ?thesis by (simp add: player_update_keeps)
    qed
  qed
  then obtain s' where "squish s c k = Inr (s', sc)" "shape s'" "inRange s' c"
     "strength (heap s' a) = strength (heap s a) - k"
     "strength (heap s a) - k < 1 \<longrightarrow> squished (heap s' a) \<and> cell_at s' c = None" by blast
  thus ?thesis by (auto simp: getAlien_cell sc_def)
qed

theorem squish_hit_witness:
  "shape lone \<and> synced lone \<and> inRange lone (3, 3) \<and> getAlien lone (3, 3) = Inr (Some 0) \<and>
   strength (heap lone 0) = 2 \<and>
   (\<exists>s'. squish lone (3, 3) 3 = Inr (s', 2) \<and> strength (heap s' 0) = - 1 \<and>
         squished (heap s' 0) \<and> getAlien s' (3, 3) = Inr None)"
proof -
  have h: "shape lone" "synced lone" "the_player lone = Some Player_init"
    "inRange lone (3, 3)" "getAlien lone (3, 3) = Inr (Some 0)"
    by code_simp+
  have e: "strength (heap lone 0) = 2" by code_simp
  from squish_hit [OF h, of 3] e h show ?thesis by simp
qed

subsection \<open>Strength and the dead flag\<close>

text \<open>
  Claim C3 says that the strength of an entity is never observed negative, and that an
  entity whose strength drops below 1 is marked dead and holds no cell from then on.
  \<open>doPop\<close> subtracts the whole attack strength and nothing caps the result: from the
  start state, the placement of an entity of strength 2 and an attack of strength 3 on it
  leave its strength at \<open>-1\<close>.
\<close>

theorem negative_strength_counterexample:
  "\<not> (\<forall>ops s' aliens' a.
        (\<forall>c k. Place c k \<in> set ops \<longrightarrow> 1 \<le> k) \<and>
        run ops (start, []) = Some (Inr (s', aliens')) \<and> a < next_ref s' \<longrightarrow>
        0 \<le> strength (heap s' a))"
proof
  assume a: "\<forall>ops s' aliens' a.
        (\<forall>c k. Place c k \<in> set ops \<longrightarrow> 1 \<le> k) \<and>
        run ops (start, []) = Some (Inr (s', aliens')) \<and> a < next_ref s' \<longrightarrow>
        0 \<le> strength (heap s' a)"
  define ops where "ops = [Place (3, 3) 2, Attack (3, 3) 3]"
  define res where "res = run ops (start, [])"
  have "case res of
          Some (Inr (s', aliens')) \<Rightarrow> next_ref s' = 1 \<and> strength (heap s' 0) = - 1
        | _ \<Rightarrow> False"
    unfolding res_def ops_def by code_simp
  then obtain s' aliens' where "res = Some (Inr (s', aliens'))"
    and f: "next_ref s' = 1" "strength (heap s' 0) = - 1"
    by (auto split: option.splits sum.splits)
  hence r: "run ops (start, []) = Some (Inr (s', aliens'))" by (simp add: res_def)
  have p: "\<forall>c k. Place c k \<in> set ops \<longrightarrow> 1 \<le> k" by (auto simp: ops_def)
  from f(1) have "0 < next_ref s'" by simp
  with a p r have "0 \<le> strength (heap s' 0)" by blast
  with f(2) have "0 \<le> strength (heap s' 0)" "strength (heap s' 0) = - 1" by simp_all
  thus False by simp
qed

text \<open>
  Claim C3 as amended. Take any sequence of operations (placements of strength at least 1,
  attacks, area effects, time steps with any draws, turn counts, collections, win checks)
  that runs through without raising, from a state in which every entity of strength below
  1 is marked dead. Then afterwards every entity of strength below 1 is marked dead, so
  the strength of a live entity is never below 1, no entity is lost, and a dead flag that
  was set is still set. The strength stored in a dead entity can be negative.
\<close>

theorem dead_flag_follows_strength:
  assumes "run ops (s, aliens) = Some (Inr (s', aliens'))"
    and "low_dead s"
    and "\<forall>c k. Place c k \<in> set ops \<longrightarrow> 1 \<le> k"
  shows "(\<forall>a < next_ref s'. strength (heap s' a) < 1 \<longrightarrow> squished (heap s' a)) \<and>
         next_ref s \<le> next_ref s' \<and>
         (\<forall>a < next_ref s. squished (heap s a) \<longrightarrow> squished (heap s' a))"
proof -
  from assms(1,3) have "life_ok s s'" by (rule run_ok)
  with assms(2) show ?thesis by (simp add: life_ok_def grows_def low_dead_def)
qed

theorem dead_flag_follows_strength_witness:
  "low_dead start \<and>
   (\<exists>s' aliens'. run short_game (start, []) = Some (Inr (s', aliens')) \<and>
      next_ref s' = 2 \<and> strength (heap s' 1) = - 1 \<and> squished (heap s' 1) \<and>
      \<not> squished (heap s' 0) \<and> 1 \<le> strength (heap s' 0))"
proof -
  define res where "res = run short_game (start, [])"
  have "case res of
          Some (Inr (s', aliens')) \<Rightarrow>
            next_ref s' = 2 \<and> strength (heap s' 1) = - 1 \<and> \<not> squished (heap s' 0)
        | _ \<Rightarrow> False"
    unfolding res_def by code_simp
  then obtain s' aliens' where "res = Some (Inr (s', aliens'))"
    and f: "next_ref s' = 2" "strength (heap s' 1) = - 1" "\<not> squished (heap s' 0)"
    by (auto split: option.splits sum.splits)
  hence r: "run short_game (start, []) = Some (Inr (s', aliens'))" by (simp add: res_def)
  have l: "low_dead start" by (simp add: low_dead_def start_def Board_init_def)
  have p: "\<forall>c k. Place c k \<in> set short_game \<longrightarrow> 1 \<le> k" by (auto simp: short_game_def)
  from dead_flag_follows_strength [OF r l p] f
  have d: "\<And>a. a < 2 \<Longrightarrow> strength (heap s' a) < 1 \<Longrightarrow> squished (heap s' a)" by simp
  from d [of 1] f have "squished (heap s' 1)" by simp
  moreover from d [of 0] f have "\<not> strength (heap s' 0) < 1" by auto
  hence "1 \<le> strength (heap s' 0)" by linarith
  ultimately show ?thesis using r f l by blast
qed

subsection \<open>What the collector returns\<close>

text \<open>
  Claim C8 says that \<open>garbage_collect\<close> returns exactly the live roots and that, for a
  live parent, a dead leaf child is removed from the parent's child list. The collector
  never looks below a dead entity, so a live parent below a dead entity keeps its dead
  child: in \<open>family\<close>, a forest without null slots, the live alien 4 hangs below the dead
  alien 1 and has the dead leaf 7 as its child, and after the collection its child list is
  still \<open>[Some 7]\<close>. The claim as stated, for every live parent that the registry
  reaches, is refuted by that parent.
\<close>

theorem unvisited_parent_keeps_dead_child_counterexample:
  "\<not> (\<forall>N s aliens s' rs p d.
        forest N (heap s) aliens \<and> garbage_collect s aliens = Some (Inr (s', rs)) \<and>
        p \<in> reach (heap s) (set aliens) \<and> \<not> squished (heap s p) \<and>
        Some d \<in> set (children (heap s p)) \<and> squished (heap s d) \<and> children (heap s d) = [] \<longrightarrow>
        Some d \<notin> set (children (heap s' p)))"
proof
  assume a: "\<forall>N s aliens s' rs p d.
        forest N (heap s) aliens \<and> garbage_collect s aliens = Some (Inr (s', rs)) \<and>
        p \<in> reach (heap s) (set aliens) \<and> \<not> squished (heap s p) \<and>
        Some d \<in> set (children (heap s p)) \<and> squished (heap s d) \<and> children (heap s d) = [] \<longrightarrow>
        Some d \<notin> set (children (heap s' p))"
  define res where "res = garbage_collect family [0, 3]"
  have "case res of Some (Inr (s', rs)) \<Rightarrow> children (heap s' 4) = [Some 7] | _ \<Rightarrow> False"
    unfolding res_def by code_simp
  then obtain s' rs where "res = Some (Inr (s', rs))" and k: "children (heap s' 4) = [Some 7]"
    by (auto split: option.splits sum.splits)
  hence r: "garbage_collect family [0, 3] = Some (Inr (s', rs))" by (simp add: res_def)
  have fo: "forest 8 (heap family) [0, 3]" by code_simp
  have ev: "Some 1 \<in> set (children (heap family 0))" "Some 4 \<in> set (children (heap family 1))"
    "\<not> squished (heap family 4)" "Some 7 \<in> set (children (heap family 4))"
    "squished (heap family 7)" "children (heap family 7) = []"
    by code_simp+
  have "0 \<in> reach (heap family) (set [0, 3])" by (simp add: reach.root)
  with ev(1) have "1 \<in> reach (heap family) (set [0, 3])" by (blast intro: reach.child)
  with ev(2) have "4 \<in> reach (heap family) (set [0, 3])" by (blast intro: reach.child)
  with a fo r ev have "Some 7 \<notin> set (children (heap s' 4))" by blast
  with k show False by simp
qed

text \<open>
  Claim C8 as amended. Take a registry whose lineage is a forest below \<open>N\<close>: no child
  list holds a null slot, children are younger than their parents, no entity is named
  twice, and the roots are distinct entities that are nobody's child. Then
  \<open>garbage_collect\<close> returns, and what it returns is the registry without its dead
  roots, in the same order. Only child lists change. A dead root is dropped as it is,
  with its child list untouched, so what hangs below it is lost with it. For a live
  parent that the registry reaches through live entities only, no dead child is left in
  its child list. The child list of every other entity, a live parent below a dead entity
  among them, is untouched. The entities that the returned roots reach are exactly the
  live entities that the registry reached through live entities only: a live grandchild
  below a dead entity is not kept.
\<close>

theorem garbage_collect_keeps_live_lineage:
  assumes fo: "forest N (heap s) aliens"
  shows "\<exists>h'. garbage_collect s aliens =
                Some (Inr (s\<lparr>heap := h'\<rparr>, filter (\<lambda>r. \<not> squished (heap s r)) aliens)) \<and>
              same_but_children (heap s) h' \<and>
              (\<forall>r \<in> set aliens. squished (heap s r) \<longrightarrow> children (h' r) = children (heap s r)) \<and>
              (\<forall>p \<in> live_reach (heap s) (set aliens). \<forall>d.
                  squished (heap s d) \<longrightarrow> Some d \<notin> set (children (h' p))) \<and>
              (\<forall>b. b \<notin> live_reach (heap s) (set aliens) \<longrightarrow>
                  children (h' b) = children (heap s b)) \<and>
              reach h' {r \<in> set aliens. \<not> squished (heap s r)} = live_reach (heap s) (set aliens)"
proof -
  let ?h0 = "heap s" and ?R = "set aliens"
  have "gc_inv N ?h0 ?R {} ?h0 []" by (rule gc_inv_start)
  from gc_roots_inv [OF fo refl this forest_roots(1) [OF fo]]
  obtain h' where run: "gc_roots aliens ?h0 = Some (Inr h')"
    and inv: "gc_inv N ?h0 ?R ?R h' []" by auto
  from inv obtain V where hi: "gc_heap_inv N ?h0 ?R ?R V h'"
    and fi: "gc_frames_inv N ?h0 ?R V h' []"
    unfolding gc_inv_def by blast
  note hd = gc_heap_invD [OF hi]
  note fd = gc_frames_invD [OF fi]
  have sq: "squished (h' b) = squished (?h0 b)" for b
    using hd(2) by (simp add: same_but_children_fields)
  have closed: "k \<in> V" if "q \<in> V" "Some k \<in> set (children (h' q))" for q k
  proof -
    from that(2) obtain i where "i < length (children (h' q))" "children (h' q) ! i = Some k"
      by (auto simp: in_set_conv_nth)
    from fd(5) [OF that(1) this] show ?thesis by simp
  qed
  have roots_in: "r \<in> V" if "r \<in> ?R" "\<not> squished (?h0 r)" for r
    using fd(6) [OF that] by simp
  have sub: "v \<in> live_reach ?h0 ?R" if "v \<in> V" for v
    using that
  proof (induction v rule: less_induct)
    case (less v)
    from hd(8) [OF less.prems] show ?case
    proof
      assume "v \<in> ?R"
      with hd(7) [OF less.prems] show ?thesis by (simp add: live_reach.root)
    next
      assume "\<exists>p \<in> V. Some v \<in> set (children (?h0 p))"
      then obtain p where p: "p \<in> V" "Some v \<in> set (children (?h0 p))" by blast
      from forest_child [OF fo hd(6) [OF p(1)] p(2)] have "p < v" by simp
      from less.IH [OF this p(1)] p(2) hd(7) [OF less.prems] show ?thesis
        by (blast intro: live_reach.child)
    qed
  qed
  have sup: "v \<in> V" if "v \<in> live_reach ?h0 ?R" for v
    using that
  proof (induction rule: live_reach.induct)
    case (root r)
    then show ?case by (rule roots_in)
  next
    case (child p k)
    from hd(5) [OF child(2,3)] child.IH show ?case by (blast intro: closed)
  qed
  have V: "V = live_reach ?h0 ?R" using sub sup by blast
  have a: "garbage_collect s aliens =
           Some (Inr (s\<lparr>heap := h'\<rparr>, filter (\<lambda>r. \<not> squished (heap s r)) aliens))"
  proof -
    have "filter (\<lambda>a. (\<not> squished (h' a) \<and> children (h' a) \<noteq> []) \<or> \<not> squished (h' a)) aliens =
          filter (\<lambda>r. \<not> squished (heap s r)) aliens"
      by (rule filter_cong) (auto simp: sq)
    with run show ?thesis by (simp add: garbage_collect_def)
  qed
  have c: "\<forall>r \<in> set aliens. squished (heap s r) \<longrightarrow> children (h' r) = children (heap s r)"
  proof (intro ballI impI)
    fix r assume "squished (heap s r)"
    with hd(7) [of r] have "r \<notin> V" by auto
    thus "children (h' r) = children (heap s r)" by (rule hd(3))
  qed
  have e: "\<forall>p \<in> live_reach ?h0 ?R. \<forall>d. squished (?h0 d) \<longrightarrow> Some d \<notin> set (children (h' p))"
  proof (intro ballI allI impI notI)
    fix p d assume "p \<in> live_reach ?h0 ?R" "squished (?h0 d)" "Some d \<in> set (children (h' p))"
    with closed [of p d] V have "d \<in> V" by simp
    with hd(7) [of d] \<open>squished (?h0 d)\<close> show False by simp
  qed
  have f: "reach h' {r \<in> ?R. \<not> squished (?h0 r)} = V"
  proof (intro equalityI subsetI)
    fix v assume "v \<in> reach h' {r \<in> ?R. \<not> squished (?h0 r)}"
    thus "v \<in> V"
    proof (induction rule: reach.induct)
      case (root r)
      then show ?case by (simp add: roots_in)
    next
      case (child p k)
      then show ?case by (simp add: closed)
    qed
  next
    fix v assume "v \<in> V"
    hence "v \<in> live_reach ?h0 ?R" by (rule sub)
    thus "v \<in> reach h' {r \<in> ?R. \<not> squished (?h0 r)}"
    proof (induction rule: live_reach.induct)
      case (root r)
      then show ?case by (simp add: reach.root)
    next
      case (child p k)
      from hd(5) [OF child(2,3)] child.IH show ?case by (blast intro: reach.child)
    qed
  qed
  have u: "\<forall>b. b \<notin> live_reach ?h0 ?R \<longrightarrow> children (h' b) = children (?h0 b)"
    using hd(3) V by simp
  from a hd(2) c e u f V show ?thesis by blast
qed


theorem garbage_collect_keeps_live_lineage_witness:
  "forest 8 (heap family) [0, 3] \<and>
   (\<exists>h'. garbage_collect family [0, 3] = Some (Inr (family\<lparr>heap := h'\<rparr>, [0])) \<and>
         Some 1 \<notin> set (children (h' 0)) \<and> Some 6 \<notin> set (children (h' 2)) \<and>
         children (h' 3) = [Some 5] \<and> children (h' 4) = [Some 7] \<and>
         2 \<in> reach h' {0} \<and> 4 \<notin> reach h' {0} \<and> 5 \<notin> reach h' {0})"
proof -
  let ?h = "heap family"
  have fo: "forest 8 ?h [0, 3]" by code_simp
  have ev: "filter (\<lambda>r. \<not> squished (?h r)) [0, 3] = [0]" "squished (?h 1)" "squished (?h 6)"
    "squished (?h 3)" "\<not> squished (?h 0)" "\<not> squished (?h 2)" "Some 2 \<in> set (children (?h 0))"
    "children (?h 3) = [Some 5]" "children (?h 4) = [Some 7]"
    by code_simp+
  have par: "Some 4 \<in> set (children (?h p)) \<Longrightarrow> p = 1" "Some 5 \<in> set (children (?h p)) \<Longrightarrow> p = 3" for p
    by (auto simp: family_def new_alien_def split: if_splits)
  have l0: "0 \<in> live_reach ?h (set [0, 3])" using ev by (simp add: live_reach.root)
  hence l2: "2 \<in> live_reach ?h (set [0, 3])" using ev by (blast intro: live_reach.child)
  have n4: "4 \<notin> live_reach ?h (set [0, 3])"
  proof
    assume "4 \<in> live_reach ?h (set [0, 3])"
    thus False using ev par(1) by (cases rule: live_reach.cases) (auto dest: live_reach_live)
  qed
  have n5: "5 \<notin> live_reach ?h (set [0, 3])"
  proof
    assume "5 \<in> live_reach ?h (set [0, 3])"
    thus False using ev par(2) by (cases rule: live_reach.cases) (auto dest: live_reach_live)
  qed
  have rs: "{r \<in> set [0, 3]. \<not> squished (?h r)} = {0 :: nat}" using ev by auto
  from garbage_collect_keeps_live_lineage [OF fo] obtain h' where
    h': "garbage_collect family [0, 3] =
           Some (Inr (family\<lparr>heap := h'\<rparr>, filter (\<lambda>r. \<not> squished (?h r)) [0, 3]))"
      "\<forall>r \<in> set [0, 3]. squished (?h r) \<longrightarrow> children (h' r) = children (?h r)"
      "\<forall>p \<in> live_reach ?h (set [0, 3]). \<forall>d. squished (?h d) \<longrightarrow> Some d \<notin> set (children (h' p))"
      "\<forall>b. b \<notin> live_reach ?h (set [0, 3]) \<longrightarrow> children (h' b) = children (?h b)"
      "reach h' {r \<in> set [0, 3]. \<not> squished (?h r)} = live_reach ?h (set [0, 3])"
    by blast
  from h'(3) l0 l2 ev have "Some 1 \<notin> set (children (h' 0))" "Some 6 \<notin> set (children (h' 2))"
    by blast+
  moreover from h'(2) ev have "children (h' 3) = [Some 5]" by simp
  moreover from h'(4) n4 ev have "children (h' 4) = [Some 7]" by simp
  moreover from h'(5) l2 n4 n5 have "2 \<in> reach h' {0}" "4 \<notin> reach h' {0}" "5 \<notin> reach h' {0}"
    unfolding rs by simp_all
  ultimately show ?thesis using fo h'(1) ev(1) by auto
qed

end
